theory Spec2Isabelle
  imports Main
begin

section \<open>Memory model\<close>

text \<open>
  The two queues of \<^verbatim>\<open>mpsc_queue.h\<close> and \<^verbatim>\<open>mpmc_queue.h\<close> are singly linked
  lists of heap nodes. A \<^verbatim>\<open>Node*\<close> is an optional address (\<open>None\<close> is
  \<^verbatim>\<open>nullptr\<close>); a \<^verbatim>\<open>std::unique_ptr<T>\<close> is an optional value (\<open>None\<close> is the
  empty pointer, also what a moved-from \<^verbatim>\<open>unique_ptr\<close> holds).
\<close>

type_synonym addr = nat
type_synonym ptr = "addr option"
type_synonym qid = nat

record 'a Node =
  data :: "'a option"
  "next" :: ptr

text \<open>
  The node heap is the list of all cells ever handed out by \<^verbatim>\<open>new\<close>, indexed by
  address: a cell is live or has been deleted. Addresses beyond the list were never
  allocated. \<^verbatim>\<open>new\<close> always hands out the next unused address (allocation failure,
  \<^verbatim>\<open>std::bad_alloc\<close>, is not modelled).
\<close>

datatype 'a cell = Live "'a Node" | Freed

type_synonym 'a heap = "'a cell list"

text \<open>Every undefined behaviour the operations can run into is a value.\<close>

datatype ub = Null_Deref | Use_After_Free | Double_Free | Wild_Pointer | Signed_Overflow

text \<open>\<^verbatim>\<open>new Node(...)\<close>\<close>

definition new_Node :: "'a Node \<Rightarrow> 'a heap \<Rightarrow> addr \<times> 'a heap" where
  "new_Node n h = (length h, h @ [Live n])"

text \<open>Reading through a node pointer (\<^verbatim>\<open>p->next.load(...)\<close>, \<^verbatim>\<open>p->data\<close>).\<close>

definition deref :: "'a heap \<Rightarrow> ptr \<Rightarrow> ub + 'a Node" where
  "deref h p =
     (case p of
        None \<Rightarrow> Inl Null_Deref
      | Some a \<Rightarrow>
          if a < length h
          then (case h ! a of Live n \<Rightarrow> Inr n | Freed \<Rightarrow> Inl Use_After_Free)
          else Inl Wild_Pointer)"

text \<open>\<^verbatim>\<open>p->next.store(v, ...)\<close>\<close>

definition store_next :: "ptr \<Rightarrow> ptr \<Rightarrow> 'a heap \<Rightarrow> ub + 'a heap" where
  "store_next p v h =
     (case p of
        None \<Rightarrow> Inl Null_Deref
      | Some a \<Rightarrow>
          (case deref h (Some a) of
             Inl e \<Rightarrow> Inl e
           | Inr n \<Rightarrow> Inr (h[a := Live (n\<lparr>next := v\<rparr>)])))"

text \<open>
  \<^verbatim>\<open>std::move(p->data)\<close>: the payload is handed to the caller and the node is left with
  an empty \<^verbatim>\<open>unique_ptr\<close>.
\<close>

definition move_data :: "ptr \<Rightarrow> 'a heap \<Rightarrow> ub + ('a option \<times> 'a heap)" where
  "move_data p h =
     (case p of
        None \<Rightarrow> Inl Null_Deref
      | Some a \<Rightarrow>
          (case deref h (Some a) of
             Inl e \<Rightarrow> Inl e
           | Inr n \<Rightarrow> Inr (data n, h[a := Live (n\<lparr>data := None\<rparr>)])))"

text \<open>
  \<^verbatim>\<open>delete p\<close>. Deleting \<^verbatim>\<open>nullptr\<close> does nothing; deleting a node twice, or a
  pointer that \<^verbatim>\<open>new\<close> never returned, is undefined.
\<close>

definition delete_node :: "ptr \<Rightarrow> 'a heap \<Rightarrow> ub + 'a heap" where
  "delete_node p h =
     (case p of
        None \<Rightarrow> Inr h
      | Some a \<Rightarrow>
          if a < length h
          then (case h ! a of Live n \<Rightarrow> Inr (h[a := Freed]) | Freed \<Rightarrow> Inl Double_Free)
          else Inl Wild_Pointer)"

section \<open>Queue objects\<close>

text \<open>
  Both classes have the same two members: \<^verbatim>\<open>head\<close> (a plain \<^verbatim>\<open>Node*\<close> in
  \<^verbatim>\<open>MPSC_Queue\<close>, a \<^verbatim>\<open>std::atomic<Node*>\<close> in \<^verbatim>\<open>MPMC_Queue\<close>) and the atomic
  \<^verbatim>\<open>tail\<close>. Queue objects live in a store indexed by their identity, so that
  \<^verbatim>\<open>this != &other\<close> is a comparison of identities. A program state is the node
  heap together with the store of queue objects.
\<close>

record Queue =
  head :: ptr
  tail :: ptr

record 'a state =
  heap :: "'a heap"
  objs :: "qid \<Rightarrow> Queue"

definition get_head :: "qid \<Rightarrow> 'a state \<Rightarrow> ptr" where
  "get_head q s = head (objs s q)"

definition get_tail :: "qid \<Rightarrow> 'a state \<Rightarrow> ptr" where
  "get_tail q s = tail (objs s q)"

definition set_head :: "qid \<Rightarrow> ptr \<Rightarrow> 'a state \<Rightarrow> 'a state" where
  "set_head q p s = s\<lparr>objs := (objs s)(q := (objs s q)\<lparr>head := p\<rparr>)\<rparr>"

definition set_tail :: "qid \<Rightarrow> ptr \<Rightarrow> 'a state \<Rightarrow> 'a state" where
  "set_tail q p s = s\<lparr>objs := (objs s)(q := (objs s q)\<lparr>tail := p\<rparr>)\<rparr>"

text \<open>The largest value of the return type \<^verbatim>\<open>int\<close> of \<^verbatim>\<open>size_approx\<close> (32 bits).\<close>

definition INT_MAX :: int where
  "INT_MAX = 2147483647"

section \<open>\<^verbatim>\<open>MPSC_Queue\<close>\<close>

text \<open>
  \<^verbatim>\<open>clean_nodes\<close>: the loop deletes \<^verbatim>\<open>current\<close> after reading its next-link, until
  \<^verbatim>\<open>current\<close> is null. Every round turns a live cell into a freed one, or stops in
  undefined behaviour.
\<close>

definition live_count :: "'a heap \<Rightarrow> nat" where
  "live_count h = length (filter (\<lambda>c. c \<noteq> Freed) h)"

function clean_nodes_loop :: "ptr \<Rightarrow> 'a heap \<Rightarrow> ub + 'a heap" where
  "clean_nodes_loop current h =
     (case current of
        None \<Rightarrow> Inr h
      | Some a \<Rightarrow>
          (case deref h (Some a) of
             Inl e \<Rightarrow> Inl e
           | Inr n \<Rightarrow>
               (case delete_node (Some a) h of
                  Inl e \<Rightarrow> Inl e
                | Inr h' \<Rightarrow> clean_nodes_loop (next n) h')))"
  by pat_completeness auto

lemma live_count_free:
  "a < length h \<Longrightarrow> h ! a = Live n \<Longrightarrow> live_count (h[a := Freed]) < live_count h"
  unfolding live_count_def
proof (induction h arbitrary: a)
  case Nil
  then show ?case by simp
next
  case (Cons c h)
  then show ?case by (cases a) auto
qed

lemma delete_node_live_count:
  "delete_node (Some a) h = Inr h' \<Longrightarrow> live_count h' < live_count h"
  by (auto simp: delete_node_def live_count_free split: if_splits cell.splits)

termination clean_nodes_loop
  by (relation "measure (\<lambda>(p, h). live_count h)") (auto simp: delete_node_live_count)

declare clean_nodes_loop.simps [simp del]

text \<open>\<^verbatim>\<open>void clean_nodes()\<close>\<close>

definition mpsc_clean_nodes :: "qid \<Rightarrow> 'a state \<Rightarrow> ub + 'a state" where
  "mpsc_clean_nodes this s =
     (case clean_nodes_loop (get_head this s) (heap s) of
        Inl e \<Rightarrow> Inl e
      | Inr h \<Rightarrow> Inr (s\<lparr>heap := h\<rparr>))"

text \<open>
  \<^verbatim>\<open>int size_approx() const\<close>: the loop runs while \<^verbatim>\<open>current != tail_node\<close>, leaves
  early on a null next-link, and increments the \<^verbatim>\<open>int\<close> counter otherwise;
  incrementing \<^verbatim>\<open>INT_MAX\<close> is a signed overflow. The counter bounds the number
  of rounds.
\<close>

function size_approx_loop :: "'a heap \<Rightarrow> ptr \<Rightarrow> ptr \<Rightarrow> int \<Rightarrow> ub + int" where
  "size_approx_loop h tail_node current count =
     (if current \<noteq> tail_node then
        (case deref h current of
           Inl e \<Rightarrow> Inl e
         | Inr n \<Rightarrow>
             (case next n of
                None \<Rightarrow> Inr count
              | Some a \<Rightarrow>
                  if count < INT_MAX
                  then size_approx_loop h tail_node (Some a) (count + 1)
                  else Inl Signed_Overflow))
      else Inr count)"
  by pat_completeness auto
termination
  by (relation "measure (\<lambda>(h, t, c, count). nat (INT_MAX - count))") auto

declare size_approx_loop.simps [simp del]

definition mpsc_size_approx :: "qid \<Rightarrow> 'a state \<Rightarrow> ub + int" where
  "mpsc_size_approx this s =
     size_approx_loop (heap s) (get_tail this s) (get_head this s) 0"

text \<open>
  \<^verbatim>\<open>void enqueue(U&& value)\<close>: allocate the node, exchange \<^verbatim>\<open>tail\<close> with it, store it
  into the previous tail's next-link.
\<close>

definition mpsc_enqueue :: "qid \<Rightarrow> 'a \<Rightarrow> 'a state \<Rightarrow> ub + 'a state" where
  "mpsc_enqueue this v s =
     (let (new_node, h1) = new_Node \<lparr>data = Some v, next = None\<rparr> (heap s);
          s1 = s\<lparr>heap := h1\<rparr>;
          prev_tail = get_tail this s1;
          s2 = set_tail this (Some new_node) s1
      in case store_next prev_tail (Some new_node) (heap s2) of
           Inl e \<Rightarrow> Inl e
         | Inr h2 \<Rightarrow> Inr (s2\<lparr>heap := h2\<rparr>))"

text \<open>
  \<^verbatim>\<open>std::unique_ptr<T> dequeue()\<close>: the result is the returned \<^verbatim>\<open>unique_ptr\<close>
  (\<open>None\<close> is \<^verbatim>\<open>nullptr\<close>) and the state after the call.
\<close>

definition mpsc_dequeue :: "qid \<Rightarrow> 'a state \<Rightarrow> ub + ('a option \<times> 'a state)" where
  "mpsc_dequeue this s =
     (case deref (heap s) (get_head this s) of
        Inl e \<Rightarrow> Inl e
      | Inr hd_node \<Rightarrow>
          (case next hd_node of
             None \<Rightarrow> Inr (None, s)
           | Some a \<Rightarrow>
               (case move_data (Some a) (heap s) of
                  Inl e \<Rightarrow> Inl e
                | Inr (result, h1) \<Rightarrow>
                    (case delete_node (get_head this s) h1 of
                       Inl e \<Rightarrow> Inl e
                     | Inr h2 \<Rightarrow> Inr (result, set_head this (Some a) (s\<lparr>heap := h2\<rparr>))))))"

text \<open>\<^verbatim>\<open>bool is_empty() const\<close>\<close>

definition mpsc_is_empty :: "qid \<Rightarrow> 'a state \<Rightarrow> ub + bool" where
  "mpsc_is_empty this s =
     (let current_head = get_head this s
      in case deref (heap s) current_head of
           Inl e \<Rightarrow> Inl e
         | Inr n \<Rightarrow> Inr (next n = None))"

text \<open>\<^verbatim>\<open>MPSC_Queue& operator=(MPSC_Queue&& other)\<close>\<close>

definition mpsc_move_assign :: "qid \<Rightarrow> qid \<Rightarrow> 'a state \<Rightarrow> ub + 'a state" where
  "mpsc_move_assign this other s =
     (if this \<noteq> other then
        (case mpsc_clean_nodes this s of
           Inl e \<Rightarrow> Inl e
         | Inr s1 \<Rightarrow>
             (let s2 = set_tail this (get_tail other s1) s1;
                  s3 = set_head this (get_head other s2) s2;
                  s4 = set_tail other None s3;
                  s5 = set_head other None s4
              in Inr s5))
      else Inr s)"

text \<open>\<^verbatim>\<open>MPSC_Queue(MPSC_Queue&& other)\<close>\<close>

definition mpsc_move_construct :: "qid \<Rightarrow> qid \<Rightarrow> 'a state \<Rightarrow> 'a state" where
  "mpsc_move_construct this other s =
     (let s1 = set_tail this (get_tail other s) s;
          s2 = set_head this (get_head other s1) s1;
          s3 = set_tail other None s2;
          s4 = set_head other None s3
      in s4)"

text \<open>\<^verbatim>\<open>MPSC_Queue()\<close>\<close>

definition mpsc_new :: "qid \<Rightarrow> 'a state \<Rightarrow> 'a state" where
  "mpsc_new this s =
     (let (dummy, h1) = new_Node \<lparr>data = None, next = None\<rparr> (heap s);
          s1 = set_head this (Some dummy) (s\<lparr>heap := h1\<rparr>)
      in set_tail this (Some dummy) s1)"

text \<open>\<^verbatim>\<open>~MPSC_Queue()\<close>\<close>

definition mpsc_destroy :: "qid \<Rightarrow> 'a state \<Rightarrow> ub + 'a state" where
  "mpsc_destroy this s = mpsc_clean_nodes this s"

section \<open>\<^verbatim>\<open>MPMC_Queue\<close>\<close>

text \<open>
  \<^verbatim>\<open>clean_nodes\<close> and \<^verbatim>\<open>size_approx\<close> of \<^verbatim>\<open>MPMC_Queue\<close> run the same two loops
  as those of \<^verbatim>\<open>MPSC_Queue\<close>; only the way \<^verbatim>\<open>head\<close> is read differs (an atomic
  load).
\<close>

definition mpmc_clean_nodes :: "qid \<Rightarrow> 'a state \<Rightarrow> ub + 'a state" where
  "mpmc_clean_nodes this s =
     (let node = get_head this s
      in case clean_nodes_loop node (heap s) of
           Inl e \<Rightarrow> Inl e
         | Inr h \<Rightarrow> Inr (s\<lparr>heap := h\<rparr>))"

text \<open>\<^verbatim>\<open>void enqueue(U&& value)\<close>, with its additional store of \<^verbatim>\<open>nullptr\<close>.\<close>

definition mpmc_enqueue :: "qid \<Rightarrow> 'a \<Rightarrow> 'a state \<Rightarrow> ub + 'a state" where
  "mpmc_enqueue this v s =
     (let (new_node, h1) = new_Node \<lparr>data = Some v, next = None\<rparr> (heap s)
      in case store_next (Some new_node) None h1 of
           Inl e \<Rightarrow> Inl e
         | Inr h2 \<Rightarrow>
             (let s1 = s\<lparr>heap := h2\<rparr>;
                  prev_tail = get_tail this s1;
                  s2 = set_tail this (Some new_node) s1
              in case store_next prev_tail (Some new_node) (heap s2) of
                   Inl e \<Rightarrow> Inl e
                 | Inr h3 \<Rightarrow> Inr (s2\<lparr>heap := h3\<rparr>)))"

text \<open>
  \<^verbatim>\<open>head.compare_exchange_weak(old_head, next_node, ...)\<close>: the exchange happens when
  \<^verbatim>\<open>head\<close> still holds the expected pointer, unless the weak form fails spuriously.
\<close>

definition cas_head :: "qid \<Rightarrow> ptr \<Rightarrow> ptr \<Rightarrow> bool \<Rightarrow> 'a state \<Rightarrow> bool \<times> 'a state" where
  "cas_head this expected desired spurious s =
     (if get_head this s = expected \<and> \<not> spurious
      then (True, set_head this desired s)
      else (False, s))"

text \<open>
  \<^verbatim>\<open>std::unique_ptr<T> dequeue()\<close> called with no other thread running. The retry loop
  goes round once more for each spurious failure of the weak compare-and-swap;
  \<open>fails\<close> is the number of spurious failures still to come.
\<close>

function mpmc_dequeue :: "qid \<Rightarrow> nat \<Rightarrow> 'a state \<Rightarrow> ub + ('a option \<times> 'a state)" where
  "mpmc_dequeue this fails s =
     (let old_head = get_head this s
      in case deref (heap s) old_head of
           Inl e \<Rightarrow> Inl e
         | Inr n \<Rightarrow>
             (case next n of
                None \<Rightarrow> Inr (None, s)
              | Some a \<Rightarrow>
                  (case cas_head this old_head (Some a) (0 < fails) s of
                     (True, s1) \<Rightarrow>
                       (case move_data (Some a) (heap s1) of
                          Inl e \<Rightarrow> Inl e
                        | Inr (result, h1) \<Rightarrow>
                            (case delete_node old_head h1 of
                               Inl e \<Rightarrow> Inl e
                             | Inr h2 \<Rightarrow> Inr (result, s1\<lparr>heap := h2\<rparr>)))
                   | (False, s1) \<Rightarrow> mpmc_dequeue this (fails - 1) s1)))"
  by pat_completeness auto
termination
  by (relation "measure (\<lambda>(this, fails, s). fails)")
     (auto simp: cas_head_def split: if_splits)

declare mpmc_dequeue.simps [simp del]

text \<open>\<^verbatim>\<open>bool is_empty() const\<close>\<close>

definition mpmc_is_empty :: "qid \<Rightarrow> 'a state \<Rightarrow> ub + bool" where
  "mpmc_is_empty this s =
     (let current_head = get_head this s
      in case deref (heap s) current_head of
           Inl e \<Rightarrow> Inl e
         | Inr n \<Rightarrow> Inr (next n = None))"

text \<open>\<^verbatim>\<open>int size_approx() const\<close>\<close>

definition mpmc_size_approx :: "qid \<Rightarrow> 'a state \<Rightarrow> ub + int" where
  "mpmc_size_approx this s =
     (let current = get_head this s;
          tail_node = get_tail this s
      in size_approx_loop (heap s) tail_node current 0)"

text \<open>\<^verbatim>\<open>MPMC_Queue& operator=(MPMC_Queue&& other)\<close>\<close>

definition mpmc_move_assign :: "qid \<Rightarrow> qid \<Rightarrow> 'a state \<Rightarrow> ub + 'a state" where
  "mpmc_move_assign this other s =
     (if this \<noteq> other then
        (case mpmc_clean_nodes this s of
           Inl e \<Rightarrow> Inl e
         | Inr s1 \<Rightarrow>
             (let s2 = set_head this (get_head other s1) s1;
                  s3 = set_tail this (get_tail other s2) s2;
                  s4 = set_head other None s3;
                  s5 = set_tail other None s4
              in Inr s5))
      else Inr s)"

text \<open>\<^verbatim>\<open>MPMC_Queue(MPMC_Queue&& other)\<close>\<close>

definition mpmc_move_construct :: "qid \<Rightarrow> qid \<Rightarrow> 'a state \<Rightarrow> 'a state" where
  "mpmc_move_construct this other s =
     (let s1 = set_head this (get_head other s) s;
          s2 = set_tail this (get_tail other s1) s1;
          s3 = set_head other None s2;
          s4 = set_tail other None s3
      in s4)"

text \<open>\<^verbatim>\<open>MPMC_Queue()\<close>\<close>

definition mpmc_new :: "qid \<Rightarrow> 'a state \<Rightarrow> 'a state" where
  "mpmc_new this s =
     (let (dummy, h1) = new_Node \<lparr>data = None, next = None\<rparr> (heap s);
          s1 = set_head this (Some dummy) (s\<lparr>heap := h1\<rparr>)
      in set_tail this (Some dummy) s1)"

text \<open>\<^verbatim>\<open>~MPMC_Queue()\<close>\<close>

definition mpmc_destroy :: "qid \<Rightarrow> 'a state \<Rightarrow> ub + 'a state" where
  "mpmc_destroy this s = mpmc_clean_nodes this s"

section \<open>\<^verbatim>\<open>MPMC_Queue::dequeue\<close> called by several threads\<close>

text \<open>
  For calls of \<^verbatim>\<open>dequeue\<close> that overlap in time, the body is cut at its accesses to
  shared memory, which the threads perform one at a time in some order (every
  access sees the effect of all accesses before it; the memory-order arguments of
  the atomic operations are not distinguished). A consumer is at one of these
  points, with the local variables it has set so far:
  \<^item> \<open>Load_Head\<close>: at the top of the loop, before \<^verbatim>\<open>head.load\<close>;
  \<^item> \<open>Load_Next old_head\<close>: before \<^verbatim>\<open>old_head->next.load\<close>;
  \<^item> \<open>Try_CAS old_head next_node\<close>: before the test for null and the
    compare-and-swap (taken here in its strong form: it fails only when \<^verbatim>\<open>head\<close>
    has changed);
  \<^item> \<open>Take_Data old_head next_node\<close>: the compare-and-swap succeeded, before
    \<^verbatim>\<open>std::move(next_node->data)\<close>;
  \<^item> \<open>Delete_Old old_head result\<close>: before \<^verbatim>\<open>delete old_head\<close>;
  \<^item> \<open>Returned result\<close>: the call has returned.
\<close>

datatype 'a consumer =
    Load_Head
  | Load_Next ptr
  | Try_CAS ptr ptr
  | Take_Data ptr ptr
  | Delete_Old ptr "'a option"
  | Returned "'a option"

fun dequeue_step :: "qid \<Rightarrow> 'a consumer \<Rightarrow> 'a state \<Rightarrow> ub + ('a consumer \<times> 'a state)" where
  "dequeue_step this Load_Head s = Inr (Load_Next (get_head this s), s)"
| "dequeue_step this (Load_Next old_head) s =
     (case deref (heap s) old_head of
        Inl e \<Rightarrow> Inl e
      | Inr n \<Rightarrow> Inr (Try_CAS old_head (next n), s))"
| "dequeue_step this (Try_CAS old_head next_node) s =
     (if next_node = None then Inr (Returned None, s)
      else (case cas_head this old_head next_node False s of
              (True, s1) \<Rightarrow> Inr (Take_Data old_head next_node, s1)
            | (False, s1) \<Rightarrow> Inr (Load_Head, s1)))"
| "dequeue_step this (Take_Data old_head next_node) s =
     (case move_data next_node (heap s) of
        Inl e \<Rightarrow> Inl e
      | Inr (result, h1) \<Rightarrow> Inr (Delete_Old old_head result, s\<lparr>heap := h1\<rparr>))"
| "dequeue_step this (Delete_Old old_head result) s =
     (case delete_node old_head (heap s) of
        Inl e \<Rightarrow> Inl e
      | Inr h2 \<Rightarrow> Inr (Returned result, s\<lparr>heap := h2\<rparr>))"
| "dequeue_step this (Returned result) s = Inr (Returned result, s)"

text \<open>
  A schedule is the list of the threads' turns: at each turn the named consumer
  performs its next step.
\<close>

fun run_consumers ::
  "qid \<Rightarrow> nat list \<Rightarrow> 'a consumer list \<Rightarrow> 'a state \<Rightarrow> ub + ('a consumer list \<times> 'a state)" where
  "run_consumers this [] ts s = Inr (ts, s)"
| "run_consumers this (i # sched) ts s =
     (if i < length ts then
        (case dequeue_step this (ts ! i) s of
           Inl e \<Rightarrow> Inl e
         | Inr (t, s1) \<Rightarrow> run_consumers this sched (ts[i := t]) s1)
      else run_consumers this sched ts s)"

section \<open>\<^verbatim>\<open>MPSC_Queue\<close> called by several threads\<close>

text \<open>
  Producers and the consumer whose calls overlap in time perform their accesses to
  shared memory one at a time, in some order, as above. A call of \<^verbatim>\<open>enqueue\<close> is
  cut into three steps, and a producer is at one of these points:
  \<^item> \<open>Start v\<close>: before \<^verbatim>\<open>new Node(value)\<close>;
  \<^item> \<open>Exchange new_node\<close>: before \<^verbatim>\<open>tail.exchange(new_node)\<close>;
  \<^item> \<open>Link prev_tail new_node\<close>: before \<^verbatim>\<open>prev_tail->next.store(new_node)\<close>;
  \<^item> \<open>Finished\<close>: the call has returned.
\<close>

datatype 'a producer = Start 'a | Exchange addr | Link ptr addr | Finished

fun enqueue_step :: "qid \<Rightarrow> 'a producer \<Rightarrow> 'a state \<Rightarrow> ub + ('a producer \<times> 'a state)" where
  "enqueue_step this (Start v) s =
     (let (new_node, h1) = new_Node \<lparr>data = Some v, next = None\<rparr> (heap s)
      in Inr (Exchange new_node, s\<lparr>heap := h1\<rparr>))"
| "enqueue_step this (Exchange new_node) s =
     (let prev_tail = get_tail this s
      in Inr (Link prev_tail new_node, set_tail this (Some new_node) s))"
| "enqueue_step this (Link prev_tail new_node) s =
     (case store_next prev_tail (Some new_node) (heap s) of
        Inl e \<Rightarrow> Inl e
      | Inr h \<Rightarrow> Inr (Finished, s\<lparr>heap := h\<rparr>))"
| "enqueue_step this Finished s = Inr (Finished, s)"

text \<open>
  The consumer calls \<^verbatim>\<open>dequeue\<close> again and again. A call is cut into three steps:
  \<^item> \<open>Read_Next\<close>: before \<^verbatim>\<open>head->next.load\<close>; when the link is null the call
    returns \<^verbatim>\<open>nullptr\<close> in this step;
  \<^item> \<open>Move_Data next_node\<close>: before \<^verbatim>\<open>std::move(next_node->data)\<close>;
  \<^item> \<open>Delete_Head next_node result\<close>: before \<^verbatim>\<open>delete head\<close> and the assignment
    to \<^verbatim>\<open>head\<close> (which only the consumer uses), after which the call returns.
  A step yields the consumer's next point, the results returned in this step (none
  or one) and the new state.
\<close>

datatype 'a mpsc_consumer = Read_Next | Move_Data addr | Delete_Head addr "'a option"

fun mpsc_dequeue_step ::
  "qid \<Rightarrow> 'a mpsc_consumer \<Rightarrow> 'a state \<Rightarrow> ub + ('a mpsc_consumer \<times> 'a option list \<times> 'a state)" where
  "mpsc_dequeue_step this Read_Next s =
     (case deref (heap s) (get_head this s) of
        Inl e \<Rightarrow> Inl e
      | Inr n \<Rightarrow>
          (case next n of
             None \<Rightarrow> Inr (Read_Next, [None], s)
           | Some a \<Rightarrow> Inr (Move_Data a, [], s)))"
| "mpsc_dequeue_step this (Move_Data next_node) s =
     (case move_data (Some next_node) (heap s) of
        Inl e \<Rightarrow> Inl e
      | Inr (result, h1) \<Rightarrow> Inr (Delete_Head next_node result, [], s\<lparr>heap := h1\<rparr>))"
| "mpsc_dequeue_step this (Delete_Head next_node result) s =
     (case delete_node (get_head this s) (heap s) of
        Inl e \<Rightarrow> Inl e
      | Inr h2 \<Rightarrow> Inr (Read_Next, [result], set_head this (Some next_node) (s\<lparr>heap := h2\<rparr>)))"

text \<open>
  The whole system: the producers, each with one call of \<^verbatim>\<open>enqueue\<close> to make, the
  consumer, the shared state, and two records of what has happened: the producers
  in the order of their tail exchanges, and the results of the consumer's completed
  calls. A schedule is the list of turns; at a turn the named thread performs its
  next step.
\<close>

datatype turn = Produce nat | Consume

record 'a mpsc_system =
  producers :: "'a producer list"
  consumer :: "'a mpsc_consumer"
  exchanged :: "nat list"
  returned :: "'a option list"
  shared :: "'a state"

fun mpsc_turn :: "qid \<Rightarrow> turn \<Rightarrow> 'a mpsc_system \<Rightarrow> ub + 'a mpsc_system" where
  "mpsc_turn this (Produce i) sys =
     (if i < length (producers sys) then
        (case enqueue_step this (producers sys ! i) (shared sys) of
           Inl e \<Rightarrow> Inl e
         | Inr (p, s) \<Rightarrow>
             Inr (sys\<lparr>producers := (producers sys)[i := p],
                      exchanged := (case producers sys ! i of
                                      Exchange a \<Rightarrow> exchanged sys @ [i]
                                    | _ \<Rightarrow> exchanged sys),
                      shared := s\<rparr>))
      else Inr sys)"
| "mpsc_turn this Consume sys =
     (case mpsc_dequeue_step this (consumer sys) (shared sys) of
        Inl e \<Rightarrow> Inl e
      | Inr (c, rs, s) \<Rightarrow>
          Inr (sys\<lparr>consumer := c, returned := returned sys @ rs, shared := s\<rparr>))"

fun mpsc_schedule :: "qid \<Rightarrow> turn list \<Rightarrow> 'a mpsc_system \<Rightarrow> ub + 'a mpsc_system" where
  "mpsc_schedule this [] sys = Inr sys"
| "mpsc_schedule this (t # ts) sys =
     (case mpsc_turn this t sys of
        Inl e \<Rightarrow> Inl e
      | Inr sys1 \<Rightarrow> mpsc_schedule this ts sys1)"

definition mpsc_start :: "'a list \<Rightarrow> 'a state \<Rightarrow> 'a mpsc_system" where
  "mpsc_start vs s =
     \<lparr>producers = map Start vs, consumer = Read_Next, exchanged = [], returned = [], shared = s\<rparr>"

text \<open>The number of steps of its call a producer has performed.\<close>

fun phase :: "'a producer \<Rightarrow> nat" where
  "phase (Start v) = 0"
| "phase (Exchange a) = 1"
| "phase (Link p a) = 2"
| "phase Finished = 3"

text \<open>The elements among the results of \<^verbatim>\<open>dequeue\<close> calls.\<close>

fun received :: "'a option list \<Rightarrow> 'a list" where
  "received [] = []"
| "received (None # rs) = received rs"
| "received (Some x # rs) = x # received rs"

section \<open>Sequences of calls\<close>

text \<open>
  A call of \<^verbatim>\<open>enqueue\<close> with its argument, or a call of \<^verbatim>\<open>dequeue\<close>. The number
  carried by \<open>Dequeue\<close> is the number of spurious failures the weak compare-and-swap
  of \<^verbatim>\<open>MPMC_Queue::dequeue\<close> suffers during that call; \<^verbatim>\<open>MPSC_Queue::dequeue\<close> has
  no compare-and-swap and ignores it. A run performs the calls one after the other
  on the queue \<open>q\<close> and collects what the \<^verbatim>\<open>dequeue\<close> calls return.
\<close>

datatype 'a op = Enqueue 'a | Dequeue nat

fun mpsc_run :: "qid \<Rightarrow> 'a op list \<Rightarrow> 'a state \<Rightarrow> ub + ('a option list \<times> 'a state)" where
  "mpsc_run q [] s = Inr ([], s)"
| "mpsc_run q (Enqueue v # ops) s =
     (case mpsc_enqueue q v s of
        Inl e \<Rightarrow> Inl e
      | Inr s1 \<Rightarrow> mpsc_run q ops s1)"
| "mpsc_run q (Dequeue k # ops) s =
     (case mpsc_dequeue q s of
        Inl e \<Rightarrow> Inl e
      | Inr (r, s1) \<Rightarrow>
          (case mpsc_run q ops s1 of
             Inl e \<Rightarrow> Inl e
           | Inr (rs, s2) \<Rightarrow> Inr (r # rs, s2)))"

fun mpmc_run :: "qid \<Rightarrow> 'a op list \<Rightarrow> 'a state \<Rightarrow> ub + ('a option list \<times> 'a state)" where
  "mpmc_run q [] s = Inr ([], s)"
| "mpmc_run q (Enqueue v # ops) s =
     (case mpmc_enqueue q v s of
        Inl e \<Rightarrow> Inl e
      | Inr s1 \<Rightarrow> mpmc_run q ops s1)"
| "mpmc_run q (Dequeue k # ops) s =
     (case mpmc_dequeue q k s of
        Inl e \<Rightarrow> Inl e
      | Inr (r, s1) \<Rightarrow>
          (case mpmc_run q ops s1 of
             Inl e \<Rightarrow> Inl e
           | Inr (rs, s2) \<Rightarrow> Inr (r # rs, s2)))"

text \<open>
  The reference behaviour of a first-in-first-out queue on the same calls: the
  content is a list, \<open>Enqueue\<close> appends, \<open>Dequeue\<close> takes the first element or
  reports that there is none.
\<close>

fun fifo_run :: "'a op list \<Rightarrow> 'a list \<Rightarrow> 'a option list \<times> 'a list" where
  "fifo_run [] xs = ([], xs)"
| "fifo_run (Enqueue v # ops) xs = fifo_run ops (xs @ [v])"
| "fifo_run (Dequeue k # ops) [] = (None # fst (fifo_run ops []), snd (fifo_run ops []))"
| "fifo_run (Dequeue k # ops) (x # xs) = (Some x # fst (fifo_run ops xs), snd (fifo_run ops xs))"

section \<open>The chain of a queue\<close>

text \<open>
  \<open>is_chain h p as\<close>: following next-links in the heap \<open>h\<close> from the pointer \<open>p\<close>
  visits exactly the live nodes at the addresses \<open>as\<close>, in this order, and then
  reaches \<^verbatim>\<open>nullptr\<close>. \<open>payloads h as\<close> are the \<^verbatim>\<open>data\<close> members of these nodes.
\<close>

fun is_chain :: "'a heap \<Rightarrow> ptr \<Rightarrow> addr list \<Rightarrow> bool" where
  "is_chain h p [] = (p = None)"
| "is_chain h p (a # as) =
     (p = Some a \<and>
      (case deref h (Some a) of Inl e \<Rightarrow> False | Inr n \<Rightarrow> is_chain h (next n) as))"

definition payloads :: "'a heap \<Rightarrow> addr list \<Rightarrow> 'a option list" where
  "payloads h as = map (\<lambda>a. case deref h (Some a) of Inl e \<Rightarrow> None | Inr n \<Rightarrow> data n) as"

text \<open>
  \<open>queue_at s q as xs\<close>: in the state \<open>s\<close> the queue \<open>q\<close> is quiescent and holds
  the elements \<open>xs\<close>. Its chain is the non-empty list of distinct nodes \<open>as\<close>,
  \<^verbatim>\<open>head\<close> points to the first and \<^verbatim>\<open>tail\<close> to the last of them, the first node
  has no payload and the others carry \<open>xs\<close>, oldest first.
\<close>

definition queue_at :: "'a state \<Rightarrow> qid \<Rightarrow> addr list \<Rightarrow> 'a list \<Rightarrow> bool" where
  "queue_at s q as xs =
     (as \<noteq> [] \<and> distinct as \<and> is_chain (heap s) (get_head q s) as \<and>
      get_tail q s = Some (last as) \<and> payloads (heap s) as = None # map Some xs)"

text \<open>
  The sentinel invariant on its own: the chain from \<^verbatim>\<open>head\<close> has at least one node,
  its first node has no payload, and no other node of it is without payload.
\<close>

definition sentinel_inv :: "'a state \<Rightarrow> qid \<Rightarrow> addr list \<Rightarrow> bool" where
  "sentinel_inv s q as =
     (is_chain (heap s) (get_head q s) as \<and>
      (case payloads (heap s) as of
         [] \<Rightarrow> False
       | p # ps \<Rightarrow> p = None \<and> None \<notin> set ps))"

text \<open>
  The number of next-links the loop of \<^verbatim>\<open>size_approx\<close> follows on the chain \<open>cs\<close>
  with the tail snapshot \<open>t\<close>: it stops at the node \<open>t\<close> points to, or at the
  last node of the chain.
\<close>

fun walk_len :: "ptr \<Rightarrow> addr list \<Rightarrow> nat" where
  "walk_len t [] = 0"
| "walk_len t [c] = 0"
| "walk_len t (c # d # cs) = (if Some c = t then 0 else Suc (walk_len t (d # cs)))"

text \<open>
  While producers are at work the chain from \<^verbatim>\<open>head\<close> to \<^verbatim>\<open>tail\<close> may have gaps:
  \<open>links_ok h ps L\<close> says that \<open>L\<close> lists the nodes in the order of their tail
  exchanges, that each node's next-link either points to its successor in \<open>L\<close> or
  is still null while a producer of \<open>ps\<close> is about to store it, and that the last
  node's next-link is null.
\<close>

fun links_ok :: "'a heap \<Rightarrow> 'a producer list \<Rightarrow> addr list \<Rightarrow> bool" where
  "links_ok h ps [] = False"
| "links_ok h ps [a] =
     (case deref h (Some a) of Inl e \<Rightarrow> False | Inr n \<Rightarrow> next n = None)"
| "links_ok h ps (a # b # cs) =
     ((case deref h (Some a) of
         Inl e \<Rightarrow> False
       | Inr n \<Rightarrow> next n = Some b \<or> (next n = None \<and> Link (Some a) b \<in> set ps)) \<and>
      links_ok h ps (b # cs))"

text \<open>
  The invariant of the system. Each producer is where its point says: before the
  exchange its node is outside \<open>L\<close>, after it the link it is about to store is a
  gap of \<open>L\<close>, and no two producers hold the same node. The consumer in the middle
  of a call has read a link to the second node of \<open>L\<close>. The elements \<open>ys\<close> the
  queue held at the start, followed by the producers' values in the order of their
  tail exchanges, are the elements the consumer has received, followed by the one
  it is taking out, followed by the payloads \<open>xs\<close> still in the chain.
\<close>

fun node_of :: "'a producer \<Rightarrow> addr option" where
  "node_of (Start v) = None"
| "node_of (Exchange a) = Some a"
| "node_of (Link p b) = Some b"
| "node_of Finished = None"

definition producer_ok ::
  "'a heap \<Rightarrow> addr list \<Rightarrow> 'a list \<Rightarrow> nat list \<Rightarrow> nat \<Rightarrow> 'a producer \<Rightarrow> bool" where
  "producer_ok h L vs log i p =
     (case p of
        Start v \<Rightarrow> v = vs ! i \<and> i \<notin> set log
      | Exchange a \<Rightarrow>
          a \<notin> set L \<and> deref h (Some a) = Inr \<lparr>data = Some (vs ! i), next = None\<rparr> \<and>
          i \<notin> set log
      | Link prev b \<Rightarrow>
          i \<in> set log \<and>
          (\<exists>k n. Suc k < length L \<and> prev = Some (L ! k) \<and> b = L ! Suc k \<and>
                 deref h (Some (L ! k)) = Inr n \<and> next n = None)
      | Finished \<Rightarrow> i \<in> set log)"

definition producers_ok ::
  "'a heap \<Rightarrow> addr list \<Rightarrow> 'a list \<Rightarrow> nat list \<Rightarrow> 'a producer list \<Rightarrow> bool" where
  "producers_ok h L vs log ps =
     (length ps = length vs \<and>
      (\<forall>i<length ps. producer_ok h L vs log i (ps ! i)) \<and>
      (\<forall>i<length ps. \<forall>j<length ps. \<forall>a.
          node_of (ps ! i) = Some a \<and> node_of (ps ! j) = Some a \<longrightarrow> i = j))"

definition second_is :: "'a heap \<Rightarrow> addr list \<Rightarrow> addr \<Rightarrow> bool" where
  "second_is h L a =
     (case L of
        h0 # b # cs \<Rightarrow>
          b = a \<and> (case deref h (Some h0) of Inl e \<Rightarrow> False | Inr n \<Rightarrow> next n = Some a)
      | _ \<Rightarrow> False)"

definition consumer_ok :: "'a heap \<Rightarrow> addr list \<Rightarrow> 'a list \<Rightarrow> 'a mpsc_consumer \<Rightarrow> bool" where
  "consumer_ok h L xs c =
     (case c of
        Read_Next \<Rightarrow> payloads h L = None # map Some xs
      | Move_Data a \<Rightarrow> payloads h L = None # map Some xs \<and> second_is h L a
      | Delete_Head a r \<Rightarrow>
          payloads h L = None # None # map Some xs \<and> second_is h L a \<and> r \<noteq> None)"

fun in_flight :: "'a mpsc_consumer \<Rightarrow> 'a list" where
  "in_flight (Delete_Head a (Some x)) = [x]"
| "in_flight c = []"

definition mpsc_inv ::
  "qid \<Rightarrow> 'a list \<Rightarrow> 'a list \<Rightarrow> addr list \<Rightarrow> 'a list \<Rightarrow> 'a mpsc_system \<Rightarrow> bool" where
  "mpsc_inv q vs ys L xs sys =
     (L \<noteq> [] \<and> distinct L \<and>
      get_head q (shared sys) = Some (hd L) \<and> get_tail q (shared sys) = Some (last L) \<and>
      links_ok (heap (shared sys)) (producers sys) L \<and>
      producers_ok (heap (shared sys)) L vs (exchanged sys) (producers sys) \<and>
      distinct (exchanged sys) \<and> set (exchanged sys) \<subseteq> {..<length vs} \<and>
      consumer_ok (heap (shared sys)) L xs (consumer sys) \<and>
      ys @ map ((!) vs) (exchanged sys)
        = received (returned sys) @ in_flight (consumer sys) @ xs)"

text \<open>A queue as the move operations leave their source: both pointers null.\<close>

definition moved_from :: "'a state \<Rightarrow> qid \<Rightarrow> bool" where
  "moved_from s q = (get_head q s = None \<and> get_tail q s = None)"

text \<open>A state with no node allocated and every queue object zero-filled.\<close>

definition empty_state :: "'a state" where
  "empty_state = \<lparr>heap = [], objs = (\<lambda>q. \<lparr>head = None, tail = None\<rparr>)\<rparr>"

text \<open>
  States used as concrete inputs: a newly constructed queue, the queue after
  \<^verbatim>\<open>enqueue(7)\<close> and \<^verbatim>\<open>enqueue(8)\<close>, and that one after \<^verbatim>\<open>enqueue(9)\<close>.
\<close>

definition fresh_queue :: "int state" where
  "fresh_queue = mpsc_new 0 empty_state"

definition sample_queue :: "int state" where
  "sample_queue =
     \<lparr>heap = [Live \<lparr>data = None, next = Some 1\<rparr>,
              Live \<lparr>data = Some 7, next = Some 2\<rparr>,
              Live \<lparr>data = Some 8, next = None\<rparr>],
      objs = (\<lambda>q. \<lparr>head = None, tail = None\<rparr>)(0 := \<lparr>head = Some 0, tail = Some 2\<rparr>)\<rparr>"

definition sample_queue_9 :: "int state" where
  "sample_queue_9 =
     \<lparr>heap = [Live \<lparr>data = None, next = Some 1\<rparr>,
              Live \<lparr>data = Some 7, next = Some 2\<rparr>,
              Live \<lparr>data = Some 8, next = Some 3\<rparr>,
              Live \<lparr>data = Some 9, next = None\<rparr>],
      objs = (\<lambda>q. \<lparr>head = None, tail = None\<rparr>)(0 := \<lparr>head = Some 0, tail = Some 3\<rparr>)\<rparr>"

text \<open>
  The state of \<open>sample_queue\<close> in the middle of \<^verbatim>\<open>enqueue(9)\<close>: the new node is
  allocated and \<^verbatim>\<open>tail\<close> already points to it, but the previous tail's next-link
  is not stored yet.
\<close>

definition sample_queue_pending :: "int state" where
  "sample_queue_pending =
     \<lparr>heap = [Live \<lparr>data = None, next = Some 1\<rparr>,
              Live \<lparr>data = Some 7, next = Some 2\<rparr>,
              Live \<lparr>data = Some 8, next = None\<rparr>,
              Live \<lparr>data = Some 9, next = None\<rparr>],
      objs = (\<lambda>q. \<lparr>head = None, tail = None\<rparr>)(0 := \<lparr>head = Some 0, tail = Some 3\<rparr>)\<rparr>"

text \<open>
  The state after constructing a second queue (object 1) next to \<open>sample_queue\<close>
  and move-assigning queue 0 to it: the sentinel of queue 1 is freed, queue 1 owns
  the chain, and both pointers of queue 0 are null.
\<close>

definition sample_moved :: "int state" where
  "sample_moved =
     \<lparr>heap = [Live \<lparr>data = None, next = Some 1\<rparr>,
              Live \<lparr>data = Some 7, next = Some 2\<rparr>,
              Live \<lparr>data = Some 8, next = None\<rparr>,
              Freed],
      objs = (\<lambda>q. \<lparr>head = None, tail = None\<rparr>)(1 := \<lparr>head = Some 0, tail = Some 2\<rparr>)\<rparr>"

text \<open>
  A schedule for two producers, enqueuing 1 and 2, and the consumer on a new queue,
  and the system it ends in.
\<close>

definition sample_schedule :: "turn list" where
  "sample_schedule =
     [Produce 0, Produce 1, Produce 1, Produce 0, Consume, Produce 0, Consume, Produce 1,
      Consume, Consume, Consume, Consume, Consume, Consume]"

definition sample_schedule_result :: "int mpsc_system" where
  "sample_schedule_result =
     \<lparr>producers = [Finished, Finished], consumer = Read_Next, exchanged = [1, 0],
      returned = [None, None, Some 2, Some 1],
      shared = \<lparr>heap = [Freed, Live \<lparr>data = None, next = None\<rparr>, Freed],
                objs = (\<lambda>q. \<lparr>head = None, tail = None\<rparr>)(0 := \<lparr>head = Some 1, tail = Some 1\<rparr>)\<rparr>\<rparr>"

text \<open>
  Two producers, enqueuing 1 and 2, on a new queue. In \<open>stalled_system\<close> producer 0
  has allocated node 1 and exchanged the tail but not stored the sentinel's
  next-link, and producer 1 has then run its whole call with node 2. In
  \<open>overtaken_system\<close> producer 1 has allocated node 2 and exchanged the tail after
  producer 0's exchange, and producer 0 has then stored its link and returned.
\<close>

definition stalled_system :: "int mpsc_system" where
  "stalled_system =
     \<lparr>producers = [Link (Some 0) 1, Finished], consumer = Read_Next, exchanged = [0, 1],
      returned = [],
      shared = \<lparr>heap = [Live \<lparr>data = None, next = None\<rparr>,
                       Live \<lparr>data = Some 1, next = Some 2\<rparr>,
                       Live \<lparr>data = Some 2, next = None\<rparr>],
                objs = (\<lambda>q. \<lparr>head = None, tail = None\<rparr>)(0 := \<lparr>head = Some 0, tail = Some 2\<rparr>)\<rparr>\<rparr>"

definition overtaken_system :: "int mpsc_system" where
  "overtaken_system =
     \<lparr>producers = [Finished, Link (Some 1) 2], consumer = Read_Next, exchanged = [0, 1],
      returned = [],
      shared = \<lparr>heap = [Live \<lparr>data = None, next = Some 1\<rparr>,
                       Live \<lparr>data = Some 1, next = None\<rparr>,
                       Live \<lparr>data = Some 2, next = None\<rparr>],
                objs = (\<lambda>q. \<lparr>head = None, tail = None\<rparr>)(0 := \<lparr>head = Some 0, tail = Some 2\<rparr>)\<rparr>\<rparr>"

text \<open>
  The state after a whole call \<^verbatim>\<open>enqueue(10)\<close> on \<open>sample_queue_pending\<close>, that is,
  begun and ended while \<^verbatim>\<open>enqueue(9)\<close> is still before its last step.
\<close>

definition sample_queue_pending_10 :: "int state" where
  "sample_queue_pending_10 =
     \<lparr>heap = [Live \<lparr>data = None, next = Some 1\<rparr>,
              Live \<lparr>data = Some 7, next = Some 2\<rparr>,
              Live \<lparr>data = Some 8, next = None\<rparr>,
              Live \<lparr>data = Some 9, next = Some 4\<rparr>,
              Live \<lparr>data = Some 10, next = None\<rparr>],
      objs = (\<lambda>q. \<lparr>head = None, tail = None\<rparr>)(0 := \<lparr>head = Some 0, tail = Some 4\<rparr>)\<rparr>"

text \<open>
  The queue holding 7 and 8 as an \<^verbatim>\<open>MPMC_Queue\<close> after consumer 0 of three has run a
  whole call of \<^verbatim>\<open>dequeue\<close> and consumer 1 has lost the compare-and-swap to it.
\<close>

definition sample_queue_after_7 :: "int state" where
  "sample_queue_after_7 =
     \<lparr>heap = [Freed,
              Live \<lparr>data = None, next = Some 2\<rparr>,
              Live \<lparr>data = Some 8, next = None\<rparr>],
      objs = (\<lambda>q. \<lparr>head = None, tail = None\<rparr>)(0 := \<lparr>head = Some 1, tail = Some 2\<rparr>)\<rparr>"

text \<open>The queue after \<open>n\<close> calls \<^verbatim>\<open>enqueue(0)\<close> on a newly constructed queue.\<close>

definition long_queue :: "nat \<Rightarrow> int state" where
  "long_queue n =
     (case mpsc_run 0 (replicate n (Enqueue 0)) (mpsc_new 0 empty_state) of
        Inl e \<Rightarrow> empty_state
      | Inr (rs, s') \<Rightarrow> s')"

text \<open>The heap after \<^verbatim>\<open>delete\<close> of each of the nodes \<open>as\<close>.\<close>

definition free_all :: "addr list \<Rightarrow> 'a heap \<Rightarrow> 'a heap" where
  "free_all as h = fold (\<lambda>a h'. h'[a := Freed]) as h"

section \<open>Memory and chain lemmas\<close>

lemma deref_Some_Inr: "deref h (Some a) = Inr n \<longleftrightarrow> a < length h \<and> h ! a = Live n"
  by (auto simp: deref_def split: cell.splits)

lemma deref_None [simp]: "deref h None = Inl Null_Deref"
  by (simp add: deref_def)

lemma deref_update:
  "deref (h[a := c]) (Some b) =
     (if a = b \<and> a < length h
      then (case c of Live n \<Rightarrow> Inr n | Freed \<Rightarrow> Inl Use_After_Free)
      else deref h (Some b))"
  by (simp add: deref_def)

lemma deref_bound: "deref h (Some a) = Inr n \<Longrightarrow> a < length h"
  by (simp add: deref_Some_Inr)

lemma deref_update_other:
  "a \<noteq> b \<Longrightarrow> deref (h[a := c]) (Some b) = deref h (Some b)"
  by (simp add: deref_def)

lemma deref_update_same:
  "a < length h \<Longrightarrow> deref (h[a := Live n]) (Some a) = Inr n"
  by (simp add: deref_def)

lemma deref_append:
  "deref h (Some a) = Inr n \<Longrightarrow> deref (h @ cs) (Some a) = Inr n"
  by (auto simp: deref_Some_Inr nth_append)

lemma deref_fresh: "deref (h @ [Live n]) (Some (length h)) = Inr n"
  by (simp add: deref_def)

lemma is_chain_live:
  "is_chain h p as \<Longrightarrow> a \<in> set as \<Longrightarrow> \<exists>n. deref h (Some a) = Inr n"
  by (induction as arbitrary: p) (auto split: sum.splits)

lemma is_chain_bound:
  "is_chain h p as \<Longrightarrow> a \<in> set as \<Longrightarrow> a < length h"
  using is_chain_live [of h p as a] by (auto simp: deref_Some_Inr)

lemma is_chain_update_other:
  "a \<notin> set as \<Longrightarrow> is_chain (h[a := c]) p as = is_chain h p as"
  by (induction as arbitrary: p) (auto simp: deref_update_other split: sum.splits)

lemma is_chain_append:
  "is_chain h p as \<Longrightarrow> is_chain (h @ cs) p as"
  by (induction as arbitrary: p) (auto simp: deref_append split: sum.splits)

lemma is_chain_last:
  "is_chain h p as \<Longrightarrow> as \<noteq> [] \<Longrightarrow> \<exists>n. deref h (Some (last as)) = Inr n \<and> next n = None"
  by (induction as arbitrary: p) (auto split: sum.splits)

lemma is_chain_snoc:
  "is_chain h p as \<Longrightarrow> as \<noteq> [] \<Longrightarrow> distinct as \<Longrightarrow> b \<notin> set as \<Longrightarrow>
   deref h (Some (last as)) = Inr n \<Longrightarrow> deref h (Some b) = Inr nb \<Longrightarrow> next nb = None \<Longrightarrow>
   is_chain (h[last as := Live (n\<lparr>next := Some b\<rparr>)]) p (as @ [b])"
proof (induction as arbitrary: p)
  case Nil
  then show ?case by simp
next
  case (Cons a as)
  show ?case
  proof (cases "as = []")
    case True
    with Cons.prems show ?thesis
      by (auto simp: deref_update dest: deref_bound split: sum.splits)
  next
    case False
    with Cons.prems obtain m where m: "deref h (Some a) = Inr m" "is_chain h (next m) as"
      by (auto split: sum.splits)
    from False Cons.prems have ne: "last as \<noteq> a" by auto
    have "is_chain (h[last as := Live (n\<lparr>next := Some b\<rparr>)]) (next m) (as @ [b])"
      using Cons.IH [of "next m"] m False Cons.prems by auto
    with m ne False Cons.prems show ?thesis
      by (auto simp: deref_update_other)
  qed
qed

lemma payloads_update_other:
  "a \<notin> set as \<Longrightarrow> payloads (h[a := c]) as = payloads h as"
  by (induction as) (auto simp: payloads_def deref_update)

lemma payloads_update_next:
  "deref h (Some a) = Inr n \<Longrightarrow> payloads (h[a := Live (n\<lparr>next := v\<rparr>)]) as = payloads h as"
  by (induction as) (auto simp: payloads_def deref_update dest: deref_bound)

lemma payloads_append_heap:
  "\<forall>a\<in>set as. a < length h \<Longrightarrow> payloads (h @ cs) as = payloads h as"
  by (induction as) (auto simp: payloads_def deref_def nth_append)

lemma payloads_snoc: "payloads h (as @ [b]) = payloads h as @ payloads h [b]"
  by (simp add: payloads_def)

lemma get_set_simps [simp]:
  "get_head q (set_head q' p s) = (if q = q' then p else get_head q s)"
  "get_tail q (set_tail q' p s) = (if q = q' then p else get_tail q s)"
  "get_head q (set_tail q' p s) = get_head q s"
  "get_tail q (set_head q' p s) = get_tail q s"
  "heap (set_head q p s) = heap s"
  "heap (set_tail q p s) = heap s"
  "get_head q (s\<lparr>heap := h\<rparr>) = get_head q s"
  "get_tail q (s\<lparr>heap := h\<rparr>) = get_tail q s"
  by (simp_all add: get_head_def get_tail_def set_head_def set_tail_def)

lemma mpsc_enqueue_queue_at:
  assumes "queue_at s q as xs"
  shows "\<exists>s'. mpsc_enqueue q v s = Inr s' \<and> queue_at s' q (as @ [length (heap s)]) (xs @ [v])"
proof -
  let ?b = "length (heap s)"
  let ?h1 = "heap s @ [Live \<lparr>data = Some v, next = None\<rparr>]"
  from assms have as: "as \<noteq> []" "distinct as" "is_chain (heap s) (get_head q s) as"
    "get_tail q s = Some (last as)" "payloads (heap s) as = None # map Some xs"
    by (simp_all add: queue_at_def)
  from is_chain_last [OF as(3) as(1)] obtain n where
    n: "deref (heap s) (Some (last as)) = Inr n" "next n = None" by blast
  have bound: "\<forall>a\<in>set as. a < ?b" using is_chain_bound [OF as(3)] by blast
  then have fresh: "?b \<notin> set as" by auto
  have n1: "deref ?h1 (Some (last as)) = Inr n" using n(1) by (rule deref_append)
  have b1: "deref ?h1 (Some ?b) = Inr \<lparr>data = Some v, next = None\<rparr>" by (rule deref_fresh)
  let ?h2 = "?h1[last as := Live (n\<lparr>next := Some ?b\<rparr>)]"
  let ?s' = "(set_tail q (Some ?b) (s\<lparr>heap := ?h1\<rparr>))\<lparr>heap := ?h2\<rparr>"
  have run: "mpsc_enqueue q v s = Inr ?s'"
    using as(4) n1 by (simp add: mpsc_enqueue_def new_Node_def store_next_def)
  have chain: "is_chain ?h2 (get_head q s) (as @ [?b])"
    using is_chain_snoc [OF is_chain_append [OF as(3)] as(1) as(2) fresh n1 b1] by simp
  have "payloads ?h2 as = None # map Some xs"
    using payloads_update_next [OF n1] payloads_append_heap [OF bound] as(5) by metis
  moreover have "last as \<noteq> ?b" using fresh as(1) last_in_set by metis
  then have "payloads ?h2 [?b] = [Some v]"
    by (simp add: payloads_def deref_update deref_fresh)
  ultimately have pay: "payloads ?h2 (as @ [?b]) = None # map Some (xs @ [v])"
    by (simp add: payloads_snoc)
  have "queue_at ?s' q (as @ [?b]) (xs @ [v])"
    using chain pay as(1) as(2) fresh by (simp add: queue_at_def)
  with run show ?thesis by blast
qed

lemma queue_at_length: "queue_at s q as xs \<Longrightarrow> length as = Suc (length xs)"
  by (auto simp: queue_at_def payloads_def dest: arg_cong [where f = length])

lemma mpsc_dequeue_empty:
  assumes "queue_at s q as []"
  shows "mpsc_dequeue q s = Inr (None, s)"
proof -
  from queue_at_length [OF assms] obtain a where a: "as = [a]"
    by (cases as) auto
  with assms show ?thesis
    by (auto simp: queue_at_def mpsc_dequeue_def split: sum.splits)
qed

lemma mpsc_dequeue_nonempty:
  assumes "queue_at s q as (x # xs)"
  shows "\<exists>s'. mpsc_dequeue q s = Inr (Some x, s') \<and> queue_at s' q (tl as) xs"
proof -
  from queue_at_length [OF assms] obtain a b bs where as: "as = a # b # bs"
    by (cases as; cases "tl as") auto
  from assms as have d: "a \<noteq> b" "a \<notin> set bs" "b \<notin> set bs" "distinct bs"
    and hd: "get_head q s = Some a" and tl: "get_tail q s = Some (last (b # bs))"
    and pay: "payloads (heap s) (a # b # bs) = None # Some x # map Some xs"
    by (auto simp: queue_at_def)
  from assms as obtain na nb where
    na: "deref (heap s) (Some a) = Inr na" "next na = Some b" and
    nb: "deref (heap s) (Some b) = Inr nb" "is_chain (heap s) (next nb) bs"
    by (auto simp: queue_at_def split: sum.splits)
  from pay nb have dx: "data nb = Some x" and paybs: "payloads (heap s) bs = map Some xs"
    by (auto simp: payloads_def)
  let ?h1 = "(heap s)[b := Live (nb\<lparr>data := None\<rparr>)]"
  let ?h2 = "?h1[a := Freed]"
  let ?s' = "set_head q (Some b) (s\<lparr>heap := ?h2\<rparr>)"
  have la: "a < length (heap s)" and lb: "b < length (heap s)"
    using na nb by (auto dest: deref_bound)
  have a1: "?h1 ! a = Live na" using na d(1) by (simp add: deref_Some_Inr)
  have run: "mpsc_dequeue q s = Inr (Some x, ?s')"
    using hd na nb dx la a1
    by (simp add: mpsc_dequeue_def move_data_def delete_node_def)
  have db: "deref ?h2 (Some b) = Inr (nb\<lparr>data := None\<rparr>)"
    using d(1) lb by (simp add: deref_update)
  have "is_chain ?h2 (next nb) bs"
    using nb(2) d by (simp add: is_chain_update_other)
  with db have chain: "is_chain ?h2 (Some b) (b # bs)" by simp
  have "payloads ?h2 bs = map Some xs"
    using paybs d by (simp add: payloads_update_other)
  with db have pay': "payloads ?h2 (b # bs) = None # map Some xs"
    by (simp add: payloads_def)
  have "queue_at ?s' q (b # bs) xs"
    using chain pay' d tl by (simp add: queue_at_def)
  with run as show ?thesis by auto
qed

section \<open>The two classes agree when called sequentially\<close>

lemma set_head_heap_commute:
  "set_head q p (s\<lparr>heap := h\<rparr>) = (set_head q p s)\<lparr>heap := h\<rparr>"
  by (simp add: set_head_def)

lemma set_tail_heap_commute:
  "set_tail q p (s\<lparr>heap := h\<rparr>) = (set_tail q p s)\<lparr>heap := h\<rparr>"
  by (simp add: set_tail_def)

lemma mpmc_enqueue_eq: "mpmc_enqueue q v s = mpsc_enqueue q v s"
proof -
  let ?n = "\<lparr>data = Some v, next = None\<rparr> :: 'a Node"
  have "(heap s @ [Live ?n])[length (heap s) := Live (?n\<lparr>next := None\<rparr>)] = heap s @ [Live ?n]"
    by simp
  then show ?thesis
    by (simp add: mpmc_enqueue_def mpsc_enqueue_def new_Node_def store_next_def [of "Some (length (heap s))"]
        deref_fresh)
qed

lemma mpmc_dequeue_zero: "mpmc_dequeue q 0 s = mpsc_dequeue q s"
  by (subst mpmc_dequeue.simps)
     (auto simp: mpsc_dequeue_def cas_head_def set_head_heap_commute Let_def
           split: sum.splits option.splits prod.splits)

lemma mpmc_dequeue_retry: "mpmc_dequeue q (Suc k) s = mpmc_dequeue q k s"
proof -
  have retry: "mpmc_dequeue q (Suc k) s =
      (case deref (heap s) (get_head q s) of
         Inl e \<Rightarrow> Inl e
       | Inr n \<Rightarrow> (case next n of None \<Rightarrow> Inr (None, s) | Some a \<Rightarrow> mpmc_dequeue q k s))"
    by (subst mpmc_dequeue.simps)
       (simp add: cas_head_def Let_def split: sum.splits option.splits)
  show ?thesis
  proof (cases "deref (heap s) (get_head q s)")
    case (Inl e)
    then have "mpmc_dequeue q k s = Inl e"
      by (subst mpmc_dequeue.simps) simp
    with Inl retry show ?thesis by simp
  next
    case (Inr n)
    show ?thesis
    proof (cases "next n")
      case None
      with Inr have "mpmc_dequeue q k s = Inr (None, s)"
        by (subst mpmc_dequeue.simps) simp
      with Inr None retry show ?thesis by simp
    next
      case (Some a)
      with Inr retry show ?thesis by simp
    qed
  qed
qed

lemma mpmc_dequeue_eq: "mpmc_dequeue q k s = mpsc_dequeue q s"
  by (induction k) (simp_all add: mpmc_dequeue_zero mpmc_dequeue_retry)

lemma mpmc_clean_nodes_eq: "mpmc_clean_nodes q s = mpsc_clean_nodes q s"
  by (simp add: mpmc_clean_nodes_def mpsc_clean_nodes_def)

lemma mpmc_is_empty_eq: "mpmc_is_empty q s = mpsc_is_empty q s"
  by (simp add: mpmc_is_empty_def mpsc_is_empty_def)

lemma mpmc_size_approx_eq: "mpmc_size_approx q s = mpsc_size_approx q s"
  by (simp add: mpmc_size_approx_def mpsc_size_approx_def)

lemma mpmc_new_eq: "mpmc_new q s = mpsc_new q s"
  by (simp add: mpmc_new_def mpsc_new_def)

lemma mpmc_destroy_eq: "mpmc_destroy q s = mpsc_destroy q s"
  by (simp add: mpmc_destroy_def mpsc_destroy_def mpmc_clean_nodes_eq)

lemma mpmc_run_eq: "mpmc_run q ops s = mpsc_run q ops s"
  by (induction q ops s rule: mpsc_run.induct)
     (auto simp: mpmc_enqueue_eq mpmc_dequeue_eq split: sum.splits)

lemma mpsc_run_fifo:
  "queue_at s q as xs \<Longrightarrow>
   \<exists>s' as'. mpsc_run q ops s = Inr (fst (fifo_run ops xs), s') \<and>
            queue_at s' q as' (snd (fifo_run ops xs))"
proof (induction ops arbitrary: s as xs)
  case Nil
  then show ?case by auto
next
  case (Cons c ops)
  show ?case
  proof (cases c)
    case (Enqueue v)
    from mpsc_enqueue_queue_at [OF Cons.prems, of v] obtain s1 where
      s1: "mpsc_enqueue q v s = Inr s1" "queue_at s1 q (as @ [length (heap s)]) (xs @ [v])"
      by blast
    from Cons.IH [OF s1(2)] s1(1) Enqueue show ?thesis by auto
  next
    case (Dequeue k)
    show ?thesis
    proof (cases xs)
      case Nil
      with Cons.prems have "mpsc_dequeue q s = Inr (None, s)"
        by (simp add: mpsc_dequeue_empty)
      with Cons.IH [OF Cons.prems] Nil Dequeue show ?thesis by auto
    next
      case (Cons x xs')
      with Cons.prems mpsc_dequeue_nonempty [of s q as x xs'] obtain s1 where
        s1: "mpsc_dequeue q s = Inr (Some x, s1)" "queue_at s1 q (tl as) xs'"
        by blast
      from Cons.IH [OF s1(2)] s1(1) Cons Dequeue show ?thesis by auto
    qed
  qed
qed

lemma mpsc_new_queue_at: "queue_at (mpsc_new q s) q [length (heap s)] []"
  by (simp add: queue_at_def mpsc_new_def new_Node_def payloads_def deref_fresh)

section \<open>Sample states\<close>

lemmas eval_defs =
  empty_state_def mpsc_new_def mpsc_enqueue_def mpsc_dequeue_def new_Node_def
  store_next_def move_data_def delete_node_def deref_def
  set_head_def set_tail_def get_head_def get_tail_def

lemma sample_queue_reached:
  "mpsc_run 0 [Enqueue 7, Enqueue 8] (mpsc_new 0 empty_state) = Inr ([], sample_queue)"
  "mpmc_run 0 [Enqueue 7, Enqueue 8] (mpmc_new 0 empty_state) = Inr ([], sample_queue)"
  by (simp_all add: sample_queue_def eval_defs mpmc_new_def mpmc_enqueue_def eval_nat_numeral)

lemma fresh_queue_at: "queue_at fresh_queue 0 [0] []"
  by (simp add: fresh_queue_def queue_at_def payloads_def eval_defs)

lemma sample_queue_at: "queue_at sample_queue 0 [0, 1, 2] [7, 8]"
  by (simp add: sample_queue_def queue_at_def payloads_def eval_defs)

text \<open>
  Two producers and the consumer interleaved: producer 1 exchanges the tail first,
  the consumer twice finds the head's next-link null while producer 1 has not
  stored it, and then receives 2 and 1, the order of the tail exchanges.
\<close>

lemma sample_schedule_computed:
  "mpsc_schedule 0 sample_schedule (mpsc_start [1, 2] fresh_queue) = Inr sample_schedule_result"
  by (simp add: sample_schedule_def sample_schedule_result_def mpsc_start_def fresh_queue_def
      eval_defs)

text \<open>
  Two producers whose calls overlap: the two systems described above are reached
  by these schedules.
\<close>

lemma stalled_system_computed:
  "mpsc_schedule 0 [Produce 0, Produce 0, Produce 1, Produce 1, Produce 1]
     (mpsc_start [1, 2] fresh_queue) = Inr stalled_system"
  by (simp add: stalled_system_def mpsc_start_def fresh_queue_def eval_defs eval_nat_numeral)

lemma overtaken_system_computed:
  "mpsc_schedule 0 [Produce 0, Produce 0, Produce 1, Produce 1, Produce 0]
     (mpsc_start [1, 2] fresh_queue) = Inr overtaken_system"
  by (simp add: overtaken_system_def mpsc_start_def fresh_queue_def eval_defs eval_nat_numeral)

lemma sample_queue_pending_10_computed:
  "mpsc_enqueue 0 10 sample_queue_pending = Inr sample_queue_pending_10"
  by (simp add: sample_queue_pending_def sample_queue_pending_10_def eval_defs eval_nat_numeral)

section \<open>Any interleaving of producers and the consumer\<close>

subsection \<open>Links and gaps\<close>

lemma links_ok_live: "links_ok h ps L \<Longrightarrow> a \<in> set L \<Longrightarrow> \<exists>n. deref h (Some a) = Inr n"
  by (induction h ps L rule: links_ok.induct) (auto split: sum.splits)

lemma links_ok_bound: "links_ok h ps L \<Longrightarrow> a \<in> set L \<Longrightarrow> a < length h"
  using links_ok_live [of h ps L a] by (auto dest: deref_bound)

lemma links_ok_last:
  "links_ok h ps L \<Longrightarrow> \<exists>n. deref h (Some (last L)) = Inr n \<and> next n = None"
  by (induction h ps L rule: links_ok.induct) (auto split: sum.splits)

lemma links_ok_append_heap: "links_ok h ps L \<Longrightarrow> links_ok (h @ cs) ps L"
  by (induction h ps L rule: links_ok.induct) (auto simp: deref_append split: sum.splits)

lemma links_ok_mono:
  "links_ok h ps L \<Longrightarrow>
   (\<And>a b. a \<in> set L \<Longrightarrow> Link (Some a) b \<in> set ps \<Longrightarrow> Link (Some a) b \<in> set ps') \<Longrightarrow>
   links_ok h ps' L"
  by (induction h ps L rule: links_ok.induct) (auto split: sum.splits)

lemma links_ok_snoc:
  "links_ok h ps L \<Longrightarrow> deref h (Some a) = Inr n \<Longrightarrow> next n = None \<Longrightarrow>
   Link (Some (last L)) a \<in> set ps \<Longrightarrow> links_ok h ps (L @ [a])"
  by (induction h ps L rule: links_ok.induct) (auto split: sum.splits)

lemma links_ok_update_data:
  "links_ok h ps L \<Longrightarrow> deref h (Some a) = Inr n \<Longrightarrow>
   links_ok (h[a := Live (n\<lparr>data := d\<rparr>)]) ps L"
  by (induction h ps L rule: links_ok.induct)
     (auto simp: deref_update dest: deref_bound split: sum.splits)

lemma links_ok_update_other:
  "a \<notin> set L \<Longrightarrow> links_ok (h[a := c]) ps L = links_ok h ps L"
  by (induction h ps L rule: links_ok.induct) (auto simp: deref_update split: sum.splits)

lemma links_ok_tl:
  "links_ok h ps (a # b # cs) \<Longrightarrow> a \<notin> set (b # cs) \<Longrightarrow> links_ok (h[a := Freed]) ps (b # cs)"
  using links_ok_update_other [of a "b # cs" h Freed ps] by simp

lemma links_ok_second:
  "links_ok h ps (a # cs) \<Longrightarrow> deref h (Some a) = Inr n \<Longrightarrow> next n = Some b \<Longrightarrow>
   \<exists>ds. cs = b # ds"
  by (cases cs) auto

lemma links_ok_is_chain:
  "links_ok h ps L \<Longrightarrow> (\<And>p b. Link p b \<notin> set ps) \<Longrightarrow> is_chain h (Some (hd L)) L"
  by (induction h ps L rule: links_ok.induct) (auto split: sum.splits)

lemma links_ok_store:
  "links_ok h ps L \<Longrightarrow> distinct L \<Longrightarrow> Suc k < length L \<Longrightarrow>
   deref h (Some (L ! k)) = Inr n \<Longrightarrow>
   (\<And>a b. a \<in> set L \<Longrightarrow> a \<noteq> L ! k \<Longrightarrow> Link (Some a) b \<in> set ps \<Longrightarrow>
      Link (Some a) b \<in> set ps') \<Longrightarrow>
   links_ok (h[L ! k := Live (n\<lparr>next := Some (L ! Suc k)\<rparr>)]) ps' L"
proof (induction h ps L arbitrary: k rule: links_ok.induct)
  case (1 h ps)
  then show ?case by simp
next
  case (2 h ps a)
  then show ?case by simp
next
  case (3 h ps a b cs)
  show ?case
  proof (cases k)
    case 0
    from "3.prems" have notin: "a \<notin> set (b # cs)" by simp
    have "links_ok h ps' (b # cs)"
    proof (rule links_ok_mono)
      show "links_ok h ps (b # cs)" using "3.prems"(1) by simp
    next
      fix x y assume "x \<in> set (b # cs)" "Link (Some x) y \<in> set ps"
      with notin 0 "3.prems"(5) [of x y] show "Link (Some x) y \<in> set ps'" by auto
    qed
    then have "links_ok (h[a := Live (n\<lparr>next := Some b\<rparr>)]) ps' (b # cs)"
      using links_ok_update_other [OF notin, of h "Live (n\<lparr>next := Some b\<rparr>)" ps'] by blast
    with 0 "3.prems"(4) show ?thesis
      by (auto simp: deref_update dest: deref_bound)
  next
    case (Suc k')
    with "3.prems" have k': "Suc k' < length (b # cs)" by simp
    then have "(b # cs) ! k' \<in> set (b # cs)" by (intro nth_mem) simp
    with "3.prems"(2) have ne: "(b # cs) ! k' \<noteq> a" by auto
    from "3.prems"(1) obtain m where m: "deref h (Some a) = Inr m"
      "next m = Some b \<or> (next m = None \<and> Link (Some a) b \<in> set ps)"
      and rest: "links_ok h ps (b # cs)"
      by (auto split: sum.splits)
    have "links_ok (h[(b # cs) ! k' := Live (n\<lparr>next := Some ((b # cs) ! Suc k')\<rparr>)]) ps' (b # cs)"
    proof (rule "3.IH" [OF rest _ k'])
      show "distinct (b # cs)" using "3.prems"(2) by simp
      show "deref h (Some ((b # cs) ! k')) = Inr n" using "3.prems"(4) Suc by simp
    next
      fix x y assume "x \<in> set (b # cs)" "x \<noteq> (b # cs) ! k'" "Link (Some x) y \<in> set ps"
      with "3.prems"(5) [of x y] Suc show "Link (Some x) y \<in> set ps'" by auto
    qed
    moreover have "next m = Some b \<or> (next m = None \<and> Link (Some a) b \<in> set ps')"
      using m(2) "3.prems"(5) [of a b] ne Suc by auto
    ultimately show ?thesis
      using m(1) ne Suc by (auto simp: deref_update)
  qed
qed


subsection \<open>The producers' part of the invariant\<close>

lemma in_set_update_other:
  "x \<in> set ps \<Longrightarrow> ps ! i \<noteq> x \<Longrightarrow> x \<in> set (ps[i := y])"
  by (metis in_set_conv_nth length_list_update nth_list_update_neq)

lemma received_append: "received (rs @ rs') = received rs @ received rs'"
  by (induction rs rule: received.induct) simp_all

lemma producer_ok_node_bound:
  "producer_ok h L vs log j p \<Longrightarrow> node_of p = Some a \<Longrightarrow> \<forall>x\<in>set L. x < length h \<Longrightarrow>
   a < length h"
  by (cases p) (auto simp: producer_ok_def dest: deref_bound)

lemma producers_ok_start:
  assumes ok: "producers_ok h L vs log ps" and i: "i < length ps" "ps ! i = Start v"
    and bound: "\<forall>x\<in>set L. x < length h"
  shows "producers_ok (h @ [Live \<lparr>data = Some v, next = None\<rparr>]) L vs log
           (ps[i := Exchange (length h)])"
proof -
  let ?h = "h @ [Live \<lparr>data = Some v, next = None\<rparr>]"
  let ?ps = "ps[i := Exchange (length h)]"
  from ok have len: "length ps = length vs"
    and each: "\<And>j. j < length ps \<Longrightarrow> producer_ok h L vs log j (ps ! j)"
    and uniq: "\<And>j j' a. j < length ps \<Longrightarrow> j' < length ps \<Longrightarrow>
        node_of (ps ! j) = Some a \<Longrightarrow> node_of (ps ! j') = Some a \<Longrightarrow> j = j'"
    by (auto simp: producers_ok_def)
  have each': "producer_ok ?h L vs log j (?ps ! j)" if j: "j < length ps" for j
  proof (cases "j = i")
    case True
    from each [OF i(1)] i(2) have "v = vs ! i" "i \<notin> set log"
      by (simp_all add: producer_ok_def)
    with True i(1) bound show ?thesis
      by (auto simp: producer_ok_def deref_fresh)
  next
    case False
    with each [OF j] show ?thesis
      by (cases "ps ! j") (auto simp: producer_ok_def deref_append)
  qed
  have node_old: "a < length h" if "j < length ps" "node_of (ps ! j) = Some a" for j a
    using producer_ok_node_bound [OF each [OF that(1)] that(2) bound] .
  have uniq': "j = j'" if "j < length ps" "j' < length ps"
      "node_of (?ps ! j) = Some a" "node_of (?ps ! j') = Some a" for j j' a
  proof (cases "j = i \<or> j' = i")
    case False
    with that uniq [of j j' a] show ?thesis by simp
  next
    case True
    show ?thesis
    proof (rule ccontr)
      assume ne: "j \<noteq> j'"
      with True that i(1) node_old [of j a] node_old [of j' a] show False
        by (auto split: if_splits)
    qed
  qed
  from len each' uniq' show ?thesis
    by (simp add: producers_ok_def)
qed

lemma producers_ok_exchange:
  assumes ok: "producers_ok h L vs log ps" and i: "i < length ps" "ps ! i = Exchange a"
    and L: "L \<noteq> []" and last: "deref h (Some (last L)) = Inr n" "next n = None"
  shows "producers_ok h (L @ [a]) vs (log @ [i]) (ps[i := Link (Some (last L)) a])"
proof -
  let ?ps = "ps[i := Link (Some (last L)) a]"
  from ok have len: "length ps = length vs"
    and each: "\<And>j. j < length ps \<Longrightarrow> producer_ok h L vs log j (ps ! j)"
    and uniq: "\<And>j j' a. j < length ps \<Longrightarrow> j' < length ps \<Longrightarrow>
        node_of (ps ! j) = Some a \<Longrightarrow> node_of (ps ! j') = Some a \<Longrightarrow> j = j'"
    by (auto simp: producers_ok_def)
  have each': "producer_ok h (L @ [a]) vs (log @ [i]) j (?ps ! j)" if j: "j < length ps" for j
  proof (cases "j = i")
    case True
    from L have k: "Suc (length L - 1) < length (L @ [a])" "(L @ [a]) ! (length L - 1) = last L"
      "(L @ [a]) ! Suc (length L - 1) = a"
      by (simp_all add: nth_append last_conv_nth)
    with True i(1) last show ?thesis
      unfolding producer_ok_def by (simp, intro exI [of _ "length L - 1"]) simp
  next
    case False
    show ?thesis
    proof (cases "ps ! j")
      case (Start v)
      with each [OF j] False j show ?thesis by (simp add: producer_ok_def)
    next
      case (Exchange b)
      with uniq [OF j i(1), of b] i(2) False have "b \<noteq> a" by auto
      with each [OF j] Exchange False j show ?thesis by (simp add: producer_ok_def)
    next
      case (Link p b)
      with each [OF j] obtain k m where "j \<in> set log" "Suc k < length L" "p = Some (L ! k)"
        "b = L ! Suc k" "deref h (Some (L ! k)) = Inr m" "next m = None"
        by (auto simp: producer_ok_def)
      with Link False j show ?thesis
        unfolding producer_ok_def by (simp, intro exI [of _ k]) (simp add: nth_append)
    next
      case Finished
      with each [OF j] False j show ?thesis by (simp add: producer_ok_def)
    qed
  qed
  have same: "node_of (?ps ! j) = node_of (ps ! j)" if "j < length ps" for j
    using that i by (cases "j = i") simp_all
  from len each' uniq show ?thesis
    by (simp add: producers_ok_def same del: nth_list_update)
qed

lemma producers_ok_link:
  assumes ok: "producers_ok h L vs log ps" and i: "i < length ps" "ps ! i = Link (Some (L ! k)) b"
    and d: "distinct L" and k: "Suc k < length L" "b = L ! Suc k"
    and n: "deref h (Some (L ! k)) = Inr n"
  shows "producers_ok (h[L ! k := Live (n\<lparr>next := Some b\<rparr>)]) L vs log (ps[i := Finished])"
proof -
  let ?h = "h[L ! k := Live (n\<lparr>next := Some b\<rparr>)]"
  let ?ps = "ps[i := Finished]"
  from ok have len: "length ps = length vs"
    and each: "\<And>j. j < length ps \<Longrightarrow> producer_ok h L vs log j (ps ! j)"
    and uniq: "\<And>j j' a. j < length ps \<Longrightarrow> j' < length ps \<Longrightarrow>
        node_of (ps ! j) = Some a \<Longrightarrow> node_of (ps ! j') = Some a \<Longrightarrow> j = j'"
    by (auto simp: producers_ok_def)
  from k have mem: "L ! k \<in> set L" by simp
  have each': "producer_ok ?h L vs log j (?ps ! j)" if j: "j < length ps" for j
  proof (cases "j = i")
    case True
    with each [OF i(1)] i show ?thesis by (simp add: producer_ok_def)
  next
    case False
    show ?thesis
    proof (cases "ps ! j")
      case (Start v)
      with each [OF j] False j show ?thesis by (simp add: producer_ok_def)
    next
      case (Exchange a)
      with each [OF j] mem have "a \<noteq> L ! k" by (auto simp: producer_ok_def)
      with each [OF j] Exchange False j show ?thesis
        by (simp add: producer_ok_def deref_update)
    next
      case (Link p b')
      with each [OF j] obtain k' m where k': "j \<in> set log" "Suc k' < length L"
        "p = Some (L ! k')" "b' = L ! Suc k'" "deref h (Some (L ! k')) = Inr m" "next m = None"
        by (auto simp: producer_ok_def)
      from uniq [OF j i(1), of b'] Link i(2) False have "b' \<noteq> b" by auto
      with k k' have "k' \<noteq> k" by auto
      with d k k' have "L ! k' \<noteq> L ! k" by (simp add: nth_eq_iff_index_eq)
      with k' Link False j show ?thesis
        unfolding producer_ok_def by (simp, intro exI [of _ k']) (simp add: deref_update)
    next
      case Finished
      with each [OF j] False j show ?thesis by (simp add: producer_ok_def)
    qed
  qed
  have uniq': "j = j'" if "j < length ps" "j' < length ps"
      "node_of (?ps ! j) = Some a" "node_of (?ps ! j') = Some a" for j j' a
    using that uniq [of j j' a] i(1)
    by (cases "j = i"; cases "j' = i") simp_all
  from len each' uniq' show ?thesis
    by (simp add: producers_ok_def)
qed

lemma producers_ok_update_data:
  assumes ok: "producers_ok h L vs log ps" and a: "a \<in> set L" "deref h (Some a) = Inr n"
  shows "producers_ok (h[a := Live (n\<lparr>data := d\<rparr>)]) L vs log ps"
proof -
  have "producer_ok (h[a := Live (n\<lparr>data := d\<rparr>)]) L vs log j p"
    if "producer_ok h L vs log j p" for j p
  proof (cases p)
    case (Link prev b)
    with that obtain k m where k: "j \<in> set log" "Suc k < length L"
      "prev = Some (L ! k)" "b = L ! Suc k" "deref h (Some (L ! k)) = Inr m" "next m = None"
      by (auto simp: producer_ok_def)
    with a Link show ?thesis
      unfolding producer_ok_def
      by (simp, intro exI [of _ k]) (auto simp: deref_update dest: deref_bound)
  next
    case (Exchange b)
    with that a show ?thesis by (auto simp: producer_ok_def deref_update)
  qed (use that in \<open>simp_all add: producer_ok_def\<close>)
  with ok show ?thesis by (simp add: producers_ok_def)
qed

lemma producers_ok_delete:
  assumes ok: "producers_ok h (a # b # cs) vs log ps" and d: "distinct (a # b # cs)"
    and n: "deref h (Some a) = Inr n" "next n = Some b"
  shows "producers_ok (h[a := Freed]) (b # cs) vs log ps"
proof -
  have "producer_ok (h[a := Freed]) (b # cs) vs log j p"
    if "producer_ok h (a # b # cs) vs log j p" for j p
  proof (cases p)
    case (Link prev x)
    with that obtain k m where k: "j \<in> set log" "Suc k < length (a # b # cs)"
      "prev = Some ((a # b # cs) ! k)" "x = (a # b # cs) ! Suc k"
      "deref h (Some ((a # b # cs) ! k)) = Inr m" "next m = None"
      by (auto simp: producer_ok_def)
    from k n obtain k' where k': "k = Suc k'" by (cases k) auto
    with k have "(b # cs) ! k' \<in> set (b # cs)" by (intro nth_mem) simp
    with d have "(b # cs) ! k' \<noteq> a" by auto
    with k k' Link show ?thesis
      unfolding producer_ok_def by (simp, intro exI [of _ k']) (simp add: deref_update)
  next
    case (Exchange x)
    with that show ?thesis by (auto simp: producer_ok_def deref_update)
  qed (use that in \<open>simp_all add: producer_ok_def\<close>)
  with ok show ?thesis by (simp add: producers_ok_def)
qed


subsection \<open>Steps of a producer\<close>

lemma second_is_append_heap: "second_is h L a \<Longrightarrow> second_is (h @ cs) L a"
  by (auto simp: second_is_def deref_append split: list.splits sum.splits)

lemma second_is_snoc: "second_is h L a \<Longrightarrow> second_is h (L @ [b]) a"
  by (auto simp: second_is_def split: list.splits)

lemma second_is_update_other:
  "second_is h L a \<Longrightarrow> x \<noteq> hd L \<Longrightarrow> second_is (h[x := c]) L a"
  by (auto simp: second_is_def deref_update split: list.splits sum.splits)

lemma consumer_ok_append_heap:
  "consumer_ok h L xs c \<Longrightarrow> \<forall>a\<in>set L. a < length h \<Longrightarrow> consumer_ok (h @ cs) L xs c"
  by (cases c) (auto simp: consumer_ok_def payloads_append_heap second_is_append_heap)

lemma consumer_ok_snoc:
  "consumer_ok h L xs c \<Longrightarrow> payloads h [a] = [Some v] \<Longrightarrow>
   consumer_ok h (L @ [a]) (xs @ [v]) c"
  by (cases c) (auto simp: consumer_ok_def payloads_snoc second_is_snoc)

lemma mpsc_inv_start:
  assumes inv: "mpsc_inv q vs ys L xs sys"
    and i: "i < length (producers sys)" "producers sys ! i = Start v"
  shows "\<exists>sys'. mpsc_turn q (Produce i) sys = Inr sys' \<and> mpsc_inv q vs ys L xs sys'"
proof -
  let ?s = "shared sys" and ?ps = "producers sys"
  let ?h = "heap ?s @ [Live \<lparr>data = Some v, next = None\<rparr>]"
  let ?ps' = "?ps[i := Exchange (length (heap ?s))]"
  let ?sys' = "sys\<lparr>producers := ?ps', shared := ?s\<lparr>heap := ?h\<rparr>\<rparr>"
  from inv have links: "links_ok (heap ?s) ?ps L"
    and pok: "producers_ok (heap ?s) L vs (exchanged sys) ?ps"
    and cok: "consumer_ok (heap ?s) L xs (consumer sys)"
    by (simp_all add: mpsc_inv_def)
  have bound: "\<forall>a\<in>set L. a < length (heap ?s)"
    using links_ok_bound [OF links] by blast
  have run: "mpsc_turn q (Produce i) sys = Inr ?sys'"
    using i by (simp add: new_Node_def)
  have "links_ok ?h ?ps L" using links by (rule links_ok_append_heap)
  then have links': "links_ok ?h ?ps' L"
    by (rule links_ok_mono) (use i in \<open>auto intro: in_set_update_other\<close>)
  have pok': "producers_ok ?h L vs (exchanged sys) ?ps'"
    using pok i bound by (rule producers_ok_start)
  have cok': "consumer_ok ?h L xs (consumer sys)"
    using cok bound by (rule consumer_ok_append_heap)
  have "mpsc_inv q vs ys L xs ?sys'"
    using inv links' pok' cok' by (simp add: mpsc_inv_def)
  with run show ?thesis by blast
qed

lemma mpsc_inv_exchange:
  assumes inv: "mpsc_inv q vs ys L xs sys"
    and i: "i < length (producers sys)" "producers sys ! i = Exchange a"
  shows "\<exists>sys'. mpsc_turn q (Produce i) sys = Inr sys' \<and>
     mpsc_inv q vs ys (L @ [a]) (xs @ [vs ! i]) sys'"
proof -
  let ?s = "shared sys" and ?ps = "producers sys"
  let ?ps' = "?ps[i := Link (Some (last L)) a]"
  let ?sys' = "sys\<lparr>producers := ?ps', exchanged := exchanged sys @ [i],
      shared := set_tail q (Some a) ?s\<rparr>"
  from inv have L: "L \<noteq> []" "distinct L" and hd: "get_head q ?s = Some (hd L)"
    and tl: "get_tail q ?s = Some (last L)"
    and links: "links_ok (heap ?s) ?ps L"
    and pok: "producers_ok (heap ?s) L vs (exchanged sys) ?ps"
    and log: "distinct (exchanged sys)" "set (exchanged sys) \<subseteq> {..<length vs}"
    and cok: "consumer_ok (heap ?s) L xs (consumer sys)"
    and acc: "ys @ map ((!) vs) (exchanged sys)
        = received (returned sys) @ in_flight (consumer sys) @ xs"
    by (simp_all add: mpsc_inv_def)
  from pok i have a: "a \<notin> set L"
    "deref (heap ?s) (Some a) = Inr \<lparr>data = Some (vs ! i), next = None\<rparr>"
    "i \<notin> set (exchanged sys)" and len: "length ?ps = length vs"
    by (auto simp: producers_ok_def producer_ok_def)
  from links_ok_last [OF links] obtain n where
    n: "deref (heap ?s) (Some (last L)) = Inr n" "next n = None" by blast
  have run: "mpsc_turn q (Produce i) sys = Inr ?sys'"
    using i tl by simp
  have "links_ok (heap ?s) ?ps' L"
    using links by (rule links_ok_mono) (use i in \<open>auto intro: in_set_update_other\<close>)
  then have links': "links_ok (heap ?s) ?ps' (L @ [a])"
    using a(2) by (rule links_ok_snoc) (use i in \<open>simp_all add: set_update_memI\<close>)
  have pok': "producers_ok (heap ?s) (L @ [a]) vs (exchanged sys @ [i]) ?ps'"
    using pok i L(1) n by (rule producers_ok_exchange)
  have cok': "consumer_ok (heap ?s) (L @ [a]) (xs @ [vs ! i]) (consumer sys)"
    using cok by (rule consumer_ok_snoc) (simp add: payloads_def a(2))
  have "mpsc_inv q vs ys (L @ [a]) (xs @ [vs ! i]) ?sys'"
    using L a hd log acc i len links' pok' cok' by (simp add: mpsc_inv_def)
  with run show ?thesis by blast
qed


lemma consumer_ok_update_next:
  assumes "consumer_ok h L xs c" "deref h (Some a) = Inr n"
    "c = Read_Next \<or> a \<noteq> hd L"
  shows "consumer_ok (h[a := Live (n\<lparr>next := v\<rparr>)]) L xs c"
  using assms
  by (cases c) (auto simp: consumer_ok_def payloads_update_next second_is_update_other)

lemma producers_okD:
  "producers_ok h L vs log ps \<Longrightarrow> i < length ps \<Longrightarrow> producer_ok h L vs log i (ps ! i)"
  by (simp add: producers_ok_def)

lemma mpsc_inv_link:
  assumes inv: "mpsc_inv q vs ys L xs sys"
    and i: "i < length (producers sys)" "producers sys ! i = Link p b"
  shows "\<exists>sys'. mpsc_turn q (Produce i) sys = Inr sys' \<and> mpsc_inv q vs ys L xs sys'"
proof -
  let ?s = "shared sys" and ?ps = "producers sys"
  from inv have L: "L \<noteq> []" "distinct L"
    and links: "links_ok (heap ?s) ?ps L"
    and pok: "producers_ok (heap ?s) L vs (exchanged sys) ?ps"
    and cok: "consumer_ok (heap ?s) L xs (consumer sys)"
    by (simp_all add: mpsc_inv_def)
  from producers_okD [OF pok i(1)] i(2) obtain k n where
    k: "Suc k < length L" "p = Some (L ! k)" "b = L ! Suc k"
    and n: "deref (heap ?s) (Some (L ! k)) = Inr n" "next n = None"
    by (auto simp: producer_ok_def)
  let ?h = "(heap ?s)[L ! k := Live (n\<lparr>next := Some b\<rparr>)]"
  let ?ps' = "?ps[i := Finished]"
  let ?sys' = "sys\<lparr>producers := ?ps', shared := ?s\<lparr>heap := ?h\<rparr>\<rparr>"
  have run: "mpsc_turn q (Produce i) sys = Inr ?sys'"
    using i k n by (simp add: store_next_def)
  have links': "links_ok ?h ?ps' L"
    unfolding k(3) using links L(2) k(1) n(1)
    by (rule links_ok_store) (use i k in \<open>auto intro: in_set_update_other\<close>)
  have pok': "producers_ok ?h L vs (exchanged sys) ?ps'"
    using pok i(1) i(2) [unfolded k(2)] L(2) k(1) k(3) n(1) by (rule producers_ok_link)
  have "consumer sys = Read_Next \<or> L ! k \<noteq> hd L"
  proof (cases "consumer sys")
    case Read_Next
    then show ?thesis by simp
  next
    case (Move_Data a)
    with cok have "second_is (heap ?s) L a" by (simp add: consumer_ok_def)
    with n L k show ?thesis
      by (cases k) (auto simp: second_is_def hd_conv_nth split: list.splits)
  next
    case (Delete_Head a r)
    with cok have "second_is (heap ?s) L a" by (simp add: consumer_ok_def)
    with n L k show ?thesis
      by (cases k) (auto simp: second_is_def hd_conv_nth split: list.splits)
  qed
  with cok n(1) have cok': "consumer_ok ?h L xs (consumer sys)"
    by (rule consumer_ok_update_next)
  have "mpsc_inv q vs ys L xs ?sys'"
    using inv links' pok' cok' by (simp add: mpsc_inv_def)
  with run show ?thesis by blast
qed

lemma mpsc_inv_idle:
  assumes inv: "mpsc_inv q vs ys L xs sys"
    and i: "\<not> i < length (producers sys) \<or> producers sys ! i = Finished"
  shows "mpsc_turn q (Produce i) sys = Inr sys"
  using i by (auto simp: list_update_same_conv)

subsection \<open>Steps of the consumer\<close>

lemma mpsc_inv_read:
  assumes inv: "mpsc_inv q vs ys L xs sys" and c: "consumer sys = Read_Next"
  shows "\<exists>sys'. mpsc_turn q Consume sys = Inr sys' \<and> mpsc_inv q vs ys L xs sys'"
proof -
  let ?s = "shared sys"
  from inv have L: "L \<noteq> []" and hd: "get_head q ?s = Some (hd L)"
    and links: "links_ok (heap ?s) (producers sys) L"
    and cok: "consumer_ok (heap ?s) L xs (consumer sys)"
    and acc: "ys @ map ((!) vs) (exchanged sys)
        = received (returned sys) @ in_flight (consumer sys) @ xs"
    by (simp_all add: mpsc_inv_def)
  from links_ok_live [OF links, of "hd L"] L obtain n where
    n: "deref (heap ?s) (Some (hd L)) = Inr n" by auto
  show ?thesis
  proof (cases "next n")
    case None
    then have "mpsc_turn q Consume sys = Inr (sys\<lparr>returned := returned sys @ [None]\<rparr>)"
      using c hd n by simp
    moreover have "mpsc_inv q vs ys L xs (sys\<lparr>returned := returned sys @ [None]\<rparr>)"
      using inv by (simp add: mpsc_inv_def received_append)
    ultimately show ?thesis by blast
  next
    case (Some a)
    then have run: "mpsc_turn q Consume sys = Inr (sys\<lparr>consumer := Move_Data a\<rparr>)"
      using c hd n by simp
    from L obtain h0 cs where Lc: "L = h0 # cs" by (cases L) auto
    with links n Some obtain ds where "cs = a # ds"
      by (auto dest: links_ok_second)
    with Lc n Some have "second_is (heap ?s) L a" by (simp add: second_is_def)
    with inv c have "mpsc_inv q vs ys L xs (sys\<lparr>consumer := Move_Data a\<rparr>)"
      by (simp add: mpsc_inv_def consumer_ok_def)
    with run show ?thesis by blast
  qed
qed

lemma mpsc_inv_move:
  assumes inv: "mpsc_inv q vs ys L xs sys" and c: "consumer sys = Move_Data a"
  shows "\<exists>sys' x. mpsc_turn q Consume sys = Inr sys' \<and> xs = x # tl xs \<and>
     mpsc_inv q vs ys L (tl xs) sys'"
proof -
  let ?s = "shared sys"
  from inv c have L: "L \<noteq> []" "distinct L"
    and links: "links_ok (heap ?s) (producers sys) L"
    and pok: "producers_ok (heap ?s) L vs (exchanged sys) (producers sys)"
    and pay: "payloads (heap ?s) L = None # map Some xs"
    and sec: "second_is (heap ?s) L a"
    and acc: "ys @ map ((!) vs) (exchanged sys) = received (returned sys) @ xs"
    by (simp_all add: mpsc_inv_def consumer_ok_def)
  from sec obtain h0 cs n0 where Lc: "L = h0 # a # cs"
    and n0: "deref (heap ?s) (Some h0) = Inr n0" "next n0 = Some a"
    by (auto simp: second_is_def split: list.splits sum.splits)
  from links_ok_live [OF links, of a] Lc obtain na where
    na: "deref (heap ?s) (Some a) = Inr na" by auto
  from pay Lc na obtain x xs' where xs: "xs = x # xs'" "data na = Some x"
    and paycs: "payloads (heap ?s) cs = map Some xs'"
    by (cases xs) (auto simp: payloads_def)
  let ?h = "(heap ?s)[a := Live (na\<lparr>data := None\<rparr>)]"
  let ?sys' = "sys\<lparr>consumer := Delete_Head a (Some x), shared := ?s\<lparr>heap := ?h\<rparr>\<rparr>"
  have run: "mpsc_turn q Consume sys = Inr ?sys'"
    using c na xs by (simp add: move_data_def)
  from L Lc have ne: "h0 \<noteq> a" "a \<notin> set cs" by auto
  have links': "links_ok ?h (producers sys) L"
    using links na by (rule links_ok_update_data)
  have pok': "producers_ok ?h L vs (exchanged sys) (producers sys)"
    using pok _ na by (rule producers_ok_update_data) (simp add: Lc)
  have "payloads ?h cs = map Some xs'"
    using paycs ne by (simp add: payloads_update_other)
  then have pay': "payloads ?h L = None # None # map Some xs'"
    using Lc ne na n0 pay by (auto simp: payloads_def deref_update dest: deref_bound)
  have sec': "second_is ?h L a"
    using sec ne Lc by (intro second_is_update_other) auto
  have "mpsc_inv q vs ys L xs' ?sys'"
    using inv links' pok' pay' sec' acc xs by (simp add: mpsc_inv_def consumer_ok_def)
  with run xs show ?thesis by auto
qed

lemma mpsc_inv_delete:
  assumes inv: "mpsc_inv q vs ys L xs sys" and c: "consumer sys = Delete_Head a r"
  shows "\<exists>sys'. mpsc_turn q Consume sys = Inr sys' \<and> mpsc_inv q vs ys (tl L) xs sys'"
proof -
  let ?s = "shared sys"
  from inv c have L: "L \<noteq> []" "distinct L" and hd: "get_head q ?s = Some (hd L)"
    and tl: "get_tail q ?s = Some (last L)"
    and links: "links_ok (heap ?s) (producers sys) L"
    and pok: "producers_ok (heap ?s) L vs (exchanged sys) (producers sys)"
    and pay: "payloads (heap ?s) L = None # None # map Some xs"
    and sec: "second_is (heap ?s) L a" and r: "r \<noteq> None"
    and acc: "ys @ map ((!) vs) (exchanged sys)
        = received (returned sys) @ in_flight (consumer sys) @ xs"
    by (simp_all add: mpsc_inv_def consumer_ok_def)
  from sec obtain h0 cs n0 where Lc: "L = h0 # a # cs"
    and n0: "deref (heap ?s) (Some h0) = Inr n0" "next n0 = Some a"
    by (auto simp: second_is_def split: list.splits sum.splits)
  from r obtain x where x: "r = Some x" by auto
  let ?h = "(heap ?s)[h0 := Freed]"
  let ?sys' = "sys\<lparr>consumer := Read_Next, returned := returned sys @ [r],
      shared := set_head q (Some a) (?s\<lparr>heap := ?h\<rparr>)\<rparr>"
  have run: "mpsc_turn q Consume sys = Inr ?sys'"
    using c hd Lc n0 by (simp add: delete_node_def deref_Some_Inr)
  from L Lc have ne: "h0 \<notin> set (a # cs)" by auto
  have links': "links_ok ?h (producers sys) (a # cs)"
    using links ne unfolding Lc by (rule links_ok_tl)
  have pok': "producers_ok ?h (a # cs) vs (exchanged sys) (producers sys)"
    using pok L(2) n0 unfolding Lc by (rule producers_ok_delete)
  have pay': "payloads ?h (a # cs) = None # map Some xs"
    using pay ne unfolding Lc by (simp add: payloads_update_other) (simp add: payloads_def)
  have "mpsc_inv q vs ys (a # cs) xs ?sys'"
    using L Lc tl links' pok' pay' acc c x inv
    by (simp add: mpsc_inv_def consumer_ok_def received_append)
  with run Lc show ?thesis by auto
qed

subsection \<open>Schedules\<close>

text \<open>Every turn is defined and keeps the invariant, and so does every schedule.\<close>

lemma mpsc_turn_preserves:
  assumes "mpsc_inv q vs ys L xs sys"
  shows "\<exists>sys' L' xs'. mpsc_turn q t sys = Inr sys' \<and> mpsc_inv q vs ys L' xs' sys'"
proof (cases t)
  case (Produce i)
  show ?thesis
  proof (cases "i < length (producers sys)")
    case False
    with mpsc_inv_idle [OF assms, of i] assms Produce show ?thesis by blast
  next
    case True
    show ?thesis
    proof (cases "producers sys ! i")
      case (Start v)
      with mpsc_inv_start [OF assms True] Produce show ?thesis by blast
    next
      case (Exchange a)
      with mpsc_inv_exchange [OF assms True] Produce show ?thesis by blast
    next
      case (Link p b)
      with mpsc_inv_link [OF assms True] Produce show ?thesis by blast
    next
      case Finished
      with mpsc_inv_idle [OF assms, of i] assms Produce show ?thesis by blast
    qed
  qed
next
  case Consume
  show ?thesis
  proof (cases "consumer sys")
    case Read_Next
    with mpsc_inv_read [OF assms] Consume show ?thesis by blast
  next
    case (Move_Data a)
    with mpsc_inv_move [OF assms] Consume show ?thesis by blast
  next
    case (Delete_Head a r)
    with mpsc_inv_delete [OF assms] Consume show ?thesis by blast
  qed
qed

lemma mpsc_schedule_preserves:
  "mpsc_inv q vs ys L xs sys \<Longrightarrow>
   \<exists>sys' L' xs'. mpsc_schedule q sched sys = Inr sys' \<and> mpsc_inv q vs ys L' xs' sys'"
proof (induction sched arbitrary: L xs sys)
  case Nil
  then show ?case by auto
next
  case (Cons t sched)
  from mpsc_turn_preserves [OF Cons.prems, of t] obtain sys1 L1 xs1 where
    "mpsc_turn q t sys = Inr sys1" "mpsc_inv q vs ys L1 xs1 sys1" by blast
  with Cons.IH [of L1 xs1 sys1] show ?case by auto
qed

text \<open>A quiescent queue with producers that have not started satisfies the invariant.\<close>

lemma is_chain_links_ok: "is_chain h p L \<Longrightarrow> L \<noteq> [] \<Longrightarrow> links_ok h ps L"
proof (induction h ps L arbitrary: p rule: links_ok.induct)
  case (3 h ps a b cs)
  then obtain n where "deref h (Some a) = Inr n" "is_chain h (next n) (b # cs)"
    by (auto split: sum.splits)
  with "3.IH" [of "next n"] show ?case by (auto split: sum.splits)
qed (auto split: sum.splits)

lemma mpsc_inv_start_state:
  assumes "queue_at s q as ys"
  shows "mpsc_inv q vs ys as ys (mpsc_start vs s)"
proof -
  from assms have "links_ok (heap s) (map Start vs) as"
    by (auto simp: queue_at_def intro: is_chain_links_ok)
  moreover have "producers_ok (heap s) as vs [] (map Start vs)"
    by (simp add: producers_ok_def producer_ok_def)
  ultimately show ?thesis
    using assms
    by (cases as) (simp_all add: mpsc_inv_def mpsc_start_def queue_at_def consumer_ok_def)
qed

text \<open>
  When all producers have finished and the consumer is between calls, no gap is
  left and the queue is quiescent.
\<close>

lemma mpsc_inv_quiescent:
  assumes inv: "mpsc_inv q vs ys L xs sys"
    and fin: "\<forall>p\<in>set (producers sys). p = Finished" and c: "consumer sys = Read_Next"
  shows "queue_at (shared sys) q L xs \<and> set (exchanged sys) = {..<length vs}"
proof -
  from inv c have L: "L \<noteq> []" "distinct L" "get_head q (shared sys) = Some (hd L)"
    "get_tail q (shared sys) = Some (last L)"
    and links: "links_ok (heap (shared sys)) (producers sys) L"
    and pok: "producers_ok (heap (shared sys)) L vs (exchanged sys) (producers sys)"
    and sub: "set (exchanged sys) \<subseteq> {..<length vs}"
    and pay: "payloads (heap (shared sys)) L = None # map Some xs"
    by (simp_all add: mpsc_inv_def consumer_ok_def)
  have "is_chain (heap (shared sys)) (Some (hd L)) L"
    using links by (rule links_ok_is_chain) (use fin in auto)
  with L pay have q: "queue_at (shared sys) q L xs" by (simp add: queue_at_def)
  have "i \<in> set (exchanged sys)" if "i < length vs" for i
  proof -
    from pok that have i: "i < length (producers sys)" by (simp add: producers_ok_def)
    with fin have "producers sys ! i = Finished" by simp
    with producers_okD [OF pok i] show ?thesis by (simp add: producer_ok_def)
  qed
  with sub have "set (exchanged sys) = {..<length vs}" by auto
  with q show ?thesis by simp
qed

text \<open>
  Under every schedule no step of a producer or of the consumer is undefined, and
  the elements are accounted for in the order of the tail exchanges.
\<close>

lemma mpsc_interleaved:
  assumes "queue_at s q as ys"
  shows "\<exists>sys' L xs. mpsc_schedule q sched (mpsc_start vs s) = Inr sys' \<and>
     ys @ map ((!) vs) (exchanged sys')
       = received (returned sys') @ in_flight (consumer sys') @ xs \<and>
     distinct (exchanged sys') \<and> set (exchanged sys') \<subseteq> {..<length vs} \<and>
     ((\<forall>p\<in>set (producers sys'). p = Finished) \<and> consumer sys' = Read_Next \<longrightarrow>
        queue_at (shared sys') q L xs \<and> set (exchanged sys') = {..<length vs})"
proof -
  from mpsc_schedule_preserves [OF mpsc_inv_start_state [OF assms, of vs], of sched]
  obtain sys' L xs where run: "mpsc_schedule q sched (mpsc_start vs s) = Inr sys'"
    and inv: "mpsc_inv q vs ys L xs sys'" by blast
  from inv have "ys @ map ((!) vs) (exchanged sys')
       = received (returned sys') @ in_flight (consumer sys') @ xs"
    "distinct (exchanged sys')" "set (exchanged sys') \<subseteq> {..<length vs}"
    by (simp_all add: mpsc_inv_def)
  with run mpsc_inv_quiescent [OF inv] show ?thesis by blast
qed

text \<open>
  One producer running alone through its three steps does what the sequential
  \<open>mpsc_enqueue\<close> does.
\<close>

lemma enqueue_steps_alone:
  "mpsc_schedule q [Produce 0, Produce 0, Produce 0] (mpsc_start [v] s) =
     (case mpsc_enqueue q v s of
        Inl e \<Rightarrow> Inl e
      | Inr s' \<Rightarrow> Inr ((mpsc_start [v] s')\<lparr>producers := [Finished], exchanged := [0]\<rparr>))"
  by (auto simp: mpsc_start_def mpsc_enqueue_def new_Node_def Let_def split: sum.splits)

text \<open>
  A call of \<^verbatim>\<open>enqueue\<close> returns after three steps of its own, whatever the other
  threads do in between.
\<close>

lemma enqueue_three_steps:
  assumes "enqueue_step q (Start v) s1 = Inr (p1, t1)"
    and "enqueue_step q p1 s2 = Inr (p2, t2)"
    and "enqueue_step q p2 s3 = Inr (p3, t3)"
  shows "p3 = Finished"
  using assms
  by (auto simp: new_Node_def Let_def split: sum.splits)

text \<open>
  Under any schedule a producer is at the point given by the number of its own
  turns, whatever the other threads do in between: its call never waits for them.
\<close>

lemma phase_le: "phase p \<le> 3"
  by (cases p) simp_all

lemma phase_Finished: "phase p = 3 \<longleftrightarrow> p = Finished"
  by (cases p) simp_all

lemma enqueue_step_phase:
  "enqueue_step q p s = Inr (p', s') \<Longrightarrow> phase p' = min 3 (Suc (phase p))"
  by (cases p) (auto simp: new_Node_def Let_def split: sum.splits)

lemma mpsc_turn_phase:
  assumes "mpsc_turn q t sys = Inr sys'"
  shows "length (producers sys') = length (producers sys) \<and>
     (\<forall>i<length (producers sys). phase (producers sys' ! i) =
        (if t = Produce i then min 3 (Suc (phase (producers sys ! i)))
         else phase (producers sys ! i)))"
proof (cases t)
  case (Produce j)
  show ?thesis
  proof (cases "j < length (producers sys)")
    case True
    with assms Produce obtain p s where
      step: "enqueue_step q (producers sys ! j) (shared sys) = Inr (p, s)"
      and ps: "producers sys' = (producers sys)[j := p]"
      by (auto split: sum.splits)
    from enqueue_step_phase [OF step] ps True Produce show ?thesis
      by (auto simp: nth_list_update)
  next
    case False
    with assms Produce show ?thesis by auto
  qed
next
  case Consume
  with assms show ?thesis by (auto split: sum.splits)
qed

lemma mpsc_schedule_phase:
  "mpsc_schedule q sched sys = Inr sys' \<Longrightarrow>
   length (producers sys') = length (producers sys) \<and>
   (\<forall>i<length (producers sys). phase (producers sys' ! i) =
      min 3 (phase (producers sys ! i) + count_list sched (Produce i)))"
proof (induction sched arbitrary: sys)
  case Nil
  then show ?case by (simp add: min_absorb2 phase_le)
next
  case (Cons t sched)
  then obtain sys1 where t: "mpsc_turn q t sys = Inr sys1"
    and rest: "mpsc_schedule q sched sys1 = Inr sys'"
    by (auto split: sum.splits)
  show ?case
  proof (intro conjI allI impI)
    show "length (producers sys') = length (producers sys)"
      using mpsc_turn_phase [OF t] Cons.IH [OF rest] by simp
  next
    fix i assume i: "i < length (producers sys)"
    with mpsc_turn_phase [OF t] have i1: "i < length (producers sys1)"
      and p1: "phase (producers sys1 ! i) =
        (if t = Produce i then min 3 (Suc (phase (producers sys ! i)))
         else phase (producers sys ! i))"
      by simp_all
    from Cons.IH [OF rest] i1
    have "phase (producers sys' ! i) =
      min 3 (phase (producers sys1 ! i) + count_list sched (Produce i))" by simp
    with p1 show "phase (producers sys' ! i) =
      min 3 (phase (producers sys ! i) + count_list (t # sched) (Produce i))"
      by (simp add: min_def)
  qed
qed

lemma enqueue_returns_after_three_turns:
  assumes "mpsc_schedule q sched (mpsc_start vs s) = Inr sys'"
    and "i < length vs" and "3 \<le> count_list sched (Produce i)"
  shows "producers sys' ! i = Finished"
proof -
  from mpsc_schedule_phase [OF assms(1)] assms(2,3)
  have "phase (producers sys' ! i) = 3"
    by (simp add: mpsc_start_def min_def)
  then show ?thesis by (simp add: phase_Finished)
qed

text \<open>
  While producers are at work, \<^verbatim>\<open>is_empty\<close> called by the consumer between two of
  its \<^verbatim>\<open>dequeue\<close> calls is defined, and when it returns \<^verbatim>\<open>false\<close> the chain does
  hold an element.
\<close>

lemma mpsc_inv_is_empty:
  assumes inv: "mpsc_inv q vs ys L xs sys" and c: "consumer sys = Read_Next"
  shows "\<exists>b. mpsc_is_empty q (shared sys) = Inr b \<and> (\<not> b \<longrightarrow> xs \<noteq> [])"
proof -
  from inv c have L: "L \<noteq> []" "get_head q (shared sys) = Some (hd L)"
    and links: "links_ok (heap (shared sys)) (producers sys) L"
    and pay: "payloads (heap (shared sys)) L = None # map Some xs"
    by (simp_all add: mpsc_inv_def consumer_ok_def)
  show ?thesis
  proof (cases L)
    case Nil
    with L show ?thesis by simp
  next
    case (Cons a bs)
    show ?thesis
    proof (cases bs)
      case Nil
      with Cons links L show ?thesis
        by (auto simp: mpsc_is_empty_def split: sum.splits)
    next
      case (Cons b cs)
      with \<open>L = a # bs\<close> links L pay show ?thesis
        by (auto simp: mpsc_is_empty_def payloads_def split: sum.splits)
    qed
  qed
qed

lemma mpsc_interleaved_is_empty:
  assumes "queue_at s q as ys"
  shows "\<exists>sys' zs. mpsc_schedule q sched (mpsc_start vs s) = Inr sys' \<and>
     (consumer sys' = Read_Next \<longrightarrow>
        ys @ map ((!) vs) (exchanged sys') = received (returned sys') @ zs \<and>
        (\<exists>b. mpsc_is_empty q (shared sys') = Inr b \<and> (\<not> b \<longrightarrow> zs \<noteq> [])))"
proof -
  from mpsc_schedule_preserves [OF mpsc_inv_start_state [OF assms, of vs], of sched]
  obtain sys' L xs where run: "mpsc_schedule q sched (mpsc_start vs s) = Inr sys'"
    and inv: "mpsc_inv q vs ys L xs sys'" by blast
  have "ys @ map ((!) vs) (exchanged sys') = received (returned sys') @ xs"
    if "consumer sys' = Read_Next"
    using inv that by (simp add: mpsc_inv_def)
  with run mpsc_inv_is_empty [OF inv] show ?thesis by blast
qed

text \<open>
  The consumer running alone: a call of \<^verbatim>\<open>dequeue\<close> is one step when it finds the
  queue empty and three steps otherwise, and does what the sequential
  \<open>mpsc_dequeue\<close> does.
\<close>

lemma mpsc_dequeue_steps_alone:
  "(case mpsc_turn q Consume (mpsc_start [] s) of
      Inl e \<Rightarrow> Inl e
    | Inr sys1 \<Rightarrow>
        if consumer sys1 = Read_Next then Inr sys1
        else mpsc_schedule q [Consume, Consume] sys1) =
   (case mpsc_dequeue q s of
      Inl e \<Rightarrow> Inl e
    | Inr (r, s') \<Rightarrow> Inr ((mpsc_start [] s')\<lparr>returned := [r]\<rparr>))"
  by (auto simp: mpsc_start_def mpsc_dequeue_def move_data_def delete_node_def deref_def
        set_head_def get_head_def
      split: sum.splits option.splits prod.splits cell.splits if_splits)

section \<open>First-in-first-out order\<close>

lemma fifo_run_enqueues: "fifo_run (map Enqueue xs @ ops) ys = fifo_run ops (ys @ xs)"
  by (induction xs arbitrary: ys) simp_all

lemma fifo_run_dequeues:
  "fifo_run (replicate (length ys) (Dequeue k) @ ops) ys =
     (map Some ys @ fst (fifo_run ops []), snd (fifo_run ops []))"
  by (induction ys) simp_all

lemma fifo_run_drain:
  "fifo_run (map Enqueue xs @ replicate (length ys + length xs) (Dequeue k) @ [Dequeue k']) ys
     = (map Some (ys @ xs) @ [None], [])"
  using fifo_run_dequeues [of "ys @ xs" k "[Dequeue k']"]
  by (simp add: fifo_run_enqueues)

text \<open>
  Scenario 1, computed step by step from the definitions: the three values come out
  in order, the fourth \<^verbatim>\<open>dequeue\<close> returns \<^verbatim>\<open>nullptr\<close>, the three nodes consumed
  are freed and the node of the last element is the sentinel.
\<close>

lemma mpsc_scenario_1_computed:
  "mpsc_run 0 [Enqueue (1::int), Enqueue 2, Enqueue 3, Dequeue 0, Dequeue 0, Dequeue 0, Dequeue 0]
     (mpsc_new 0 empty_state) =
   Inr ([Some 1, Some 2, Some 3, None],
        \<lparr>heap = [Freed, Freed, Freed, Live \<lparr>data = None, next = None\<rparr>],
         objs = (\<lambda>q. \<lparr>head = None, tail = None\<rparr>)(0 := \<lparr>head = Some 3, tail = Some 3\<rparr>)\<rparr>)"
  by (simp add: eval_defs eval_nat_numeral)

text \<open>
  The same for an \<^verbatim>\<open>MPMC_Queue\<close> used by one thread, with two values and some failed
  compare-and-swap attempts.
\<close>

lemma mpmc_scenario_computed:
  "mpmc_run 0 [Enqueue (1::int), Enqueue 2, Dequeue 2, Dequeue 0, Dequeue 1]
     (mpmc_new 0 empty_state) =
   Inr ([Some 1, Some 2, None],
        \<lparr>heap = [Freed, Freed, Live \<lparr>data = None, next = None\<rparr>],
         objs = (\<lambda>q. \<lparr>head = None, tail = None\<rparr>)(0 := \<lparr>head = Some 2, tail = Some 2\<rparr>)\<rparr>)"
  by (simp add: mpmc_new_def mpmc_enqueue_def mpmc_dequeue.simps cas_head_def eval_defs Let_def
      eval_nat_numeral)

text \<open>
  C1. On an \<^verbatim>\<open>MPSC_Queue\<close>, values enqueued one after the other come out of
  successive \<^verbatim>\<open>dequeue\<close> calls exactly once each and in the order of their enqueues,
  and the call after the last of them returns \<^verbatim>\<open>nullptr\<close>: for a newly constructed
  queue, and for any quiescent queue that already holds \<open>ys\<close> (these come out
  first). With producers whose calls overlap each other and the consumer's, under
  every schedule: no step is undefined; the elements the consumer has received,
  the one it is taking out and the elements \<open>zs\<close> still in the chain are, in this
  order, \<open>ys\<close> followed by the producers' values in the order of their tail
  exchanges, each producer once; and when all producers have finished and the
  consumer is between calls, the queue is quiescent and holds \<open>zs\<close>.
\<close>

theorem mpsc_fifo_order:
  "(\<exists>s'. mpsc_run q (map Enqueue xs @ replicate (length xs) (Dequeue k) @ [Dequeue k'])
            (mpsc_new q s0)
          = Inr (map Some xs @ [None], s')) \<and>
   (queue_at s q as ys \<longrightarrow>
     (\<exists>s'. mpsc_run q
              (map Enqueue xs @ replicate (length ys + length xs) (Dequeue k) @ [Dequeue k']) s
            = Inr (map Some (ys @ xs) @ [None], s'))) \<and>
   (queue_at s q as ys \<longrightarrow>
     (\<exists>sys' L zs. mpsc_schedule q sched (mpsc_start vs s) = Inr sys' \<and>
        ys @ map ((!) vs) (exchanged sys')
          = received (returned sys') @ in_flight (consumer sys') @ zs \<and>
        distinct (exchanged sys') \<and> set (exchanged sys') \<subseteq> {..<length vs} \<and>
        ((\<forall>p\<in>set (producers sys'). p = Finished) \<and> consumer sys' = Read_Next \<longrightarrow>
           queue_at (shared sys') q L zs \<and> set (exchanged sys') = {..<length vs})))"
proof (intro conjI impI)
  show "\<exists>s'. mpsc_run q (map Enqueue xs @ replicate (length xs) (Dequeue k) @ [Dequeue k'])
            (mpsc_new q s0)
          = Inr (map Some xs @ [None], s')"
    using mpsc_run_fifo [OF mpsc_new_queue_at [of q s0],
        where ops = "map Enqueue xs @ replicate (length xs) (Dequeue k) @ [Dequeue k']"]
      fifo_run_drain [of xs "[]" k k']
    by auto
next
  assume "queue_at s q as ys"
  from mpsc_run_fifo [OF this,
      where ops = "map Enqueue xs @ replicate (length ys + length xs) (Dequeue k) @ [Dequeue k']"]
  show "\<exists>s'. mpsc_run q
              (map Enqueue xs @ replicate (length ys + length xs) (Dequeue k) @ [Dequeue k']) s
            = Inr (map Some (ys @ xs) @ [None], s')"
    by (auto simp: fifo_run_drain)
next
  assume "queue_at s q as ys"
  then show "\<exists>sys' L zs. mpsc_schedule q sched (mpsc_start vs s) = Inr sys' \<and>
        ys @ map ((!) vs) (exchanged sys')
          = received (returned sys') @ in_flight (consumer sys') @ zs \<and>
        distinct (exchanged sys') \<and> set (exchanged sys') \<subseteq> {..<length vs} \<and>
        ((\<forall>p\<in>set (producers sys'). p = Finished) \<and> consumer sys' = Read_Next \<longrightarrow>
           queue_at (shared sys') q L zs \<and> set (exchanged sys') = {..<length vs})"
    by (rule mpsc_interleaved)
qed

theorem mpsc_fifo_order_witness:
  "queue_at fresh_queue 0 [0] [] \<and>
   (\<exists>s'. mpsc_run 0
      [Enqueue 1, Enqueue 2, Enqueue 3, Dequeue 0, Dequeue 0, Dequeue 0, Dequeue 0]
      fresh_queue = Inr ([Some 1, Some 2, Some 3, None], s')) \<and>
   mpsc_schedule 0 sample_schedule (mpsc_start [1, 2] fresh_queue) = Inr sample_schedule_result \<and>
   received (returned sample_schedule_result) = [2, 1] \<and>
   exchanged sample_schedule_result = [1, 0] \<and>
   (\<exists>L. queue_at (shared sample_schedule_result) 0 L [])"
proof -
  note T = mpsc_fifo_order [where q = 0 and xs = "[1, 2, 3]" and k = 0 and k' = 0
      and s = fresh_queue and as = "[0]" and ys = "[]" and sched = sample_schedule
      and vs = "[1, 2]" and ?s0.0 = empty_state]
  have fields: "received (returned sample_schedule_result) = [2, 1]"
    "exchanged sample_schedule_result = [1, 0]"
    "in_flight (consumer sample_schedule_result) = []"
    "\<forall>p\<in>set (producers sample_schedule_result). p = Finished"
    "consumer sample_schedule_result = Read_Next"
    by (simp_all add: sample_schedule_result_def)
  from T [THEN conjunct2, THEN conjunct1, rule_format, OF fresh_queue_at]
  have seq: "\<exists>s'. mpsc_run 0
      [Enqueue 1, Enqueue 2, Enqueue 3, Dequeue 0, Dequeue 0, Dequeue 0, Dequeue 0]
      fresh_queue = Inr ([Some 1, Some 2, Some 3, None], s')"
    by (simp add: eval_nat_numeral)
  from T [THEN conjunct2, THEN conjunct2, rule_format, OF fresh_queue_at]
  obtain sys' L zs where run: "mpsc_schedule 0 sample_schedule (mpsc_start [1, 2] fresh_queue) = Inr sys'"
    and acc: "[] @ map ((!) [1, 2]) (exchanged sys')
          = received (returned sys') @ in_flight (consumer sys') @ zs"
    and quiet: "(\<forall>p\<in>set (producers sys'). p = Finished) \<and> consumer sys' = Read_Next \<longrightarrow>
           queue_at (shared sys') 0 L zs \<and> set (exchanged sys') = {..<length [1, 2 :: int]}"
    by blast
  from run have sys': "sys' = sample_schedule_result"
    by (simp add: sample_schedule_computed)
  from acc have "zs = []" unfolding sys' fields by simp
  with quiet fields have "queue_at (shared sample_schedule_result) 0 L []"
    unfolding sys' by blast
  with fresh_queue_at seq sample_schedule_computed fields show ?thesis by blast
qed

section \<open>The sentinel\<close>

lemma queue_at_sentinel_inv: "queue_at s q as xs \<Longrightarrow> sentinel_inv s q as"
  by (auto simp: queue_at_def sentinel_inv_def)

text \<open>
  C4. Every state reached from the constructor by calls of \<^verbatim>\<open>enqueue\<close> and
  \<^verbatim>\<open>dequeue\<close> (of either class) has a chain of at least one node whose first node,
  the one \<^verbatim>\<open>head\<close> points to, has no payload, while every other node of the chain
  has one; and the calls lead from any quiescent queue to a quiescent queue with
  the same property, without undefined behaviour.
\<close>

theorem sentinel_invariant:
  "(\<exists>rs s' as xs. mpsc_run q ops (mpsc_new q s0) = Inr (rs, s') \<and>
        queue_at s' q as xs \<and> sentinel_inv s' q as) \<and>
   (\<exists>rs s' as xs. mpmc_run q ops (mpmc_new q s0) = Inr (rs, s') \<and>
        queue_at s' q as xs \<and> sentinel_inv s' q as) \<and>
   (queue_at s q as xs \<longrightarrow>
      (\<exists>rs s' as' xs'. mpsc_run q ops s = Inr (rs, s') \<and> mpmc_run q ops s = Inr (rs, s') \<and>
        queue_at s' q as' xs' \<and> sentinel_inv s' q as'))"
proof -
  have step: "\<exists>rs s' as' xs'. mpsc_run q ops s = Inr (rs, s') \<and> mpmc_run q ops s = Inr (rs, s') \<and>
        queue_at s' q as' xs' \<and> sentinel_inv s' q as'"
    if "queue_at s q as xs" for s :: "'a state" and as xs
    using mpsc_run_fifo [OF that, where ops = ops]
    by (auto simp: mpmc_run_eq dest: queue_at_sentinel_inv)
  from step [OF mpsc_new_queue_at [of q s0]] step show ?thesis
    by (simp add: mpmc_new_eq) blast
qed

theorem sentinel_invariant_witness:
  "queue_at (mpsc_new 0 (empty_state :: int state)) 0 [0] [] \<and>
   (\<exists>rs s' as' xs'.
       mpsc_run 0 [Enqueue 5, Dequeue 0, Dequeue 0] (mpsc_new 0 (empty_state :: int state))
         = Inr (rs, s') \<and>
       mpmc_run 0 [Enqueue 5, Dequeue 0, Dequeue 0] (mpsc_new 0 empty_state) = Inr (rs, s') \<and>
       queue_at s' 0 as' xs' \<and> sentinel_inv s' 0 as')"
proof -
  have start: "queue_at (mpsc_new 0 (empty_state :: int state)) 0 [0] []"
    by (simp add: queue_at_def payloads_def eval_defs)
  with sentinel_invariant [of 0 "[Enqueue 5, Dequeue 0, Dequeue 0]" empty_state
      "mpsc_new 0 empty_state" "[0]" "[]"]
  show ?thesis by blast
qed

section \<open>\<^verbatim>\<open>enqueue\<close>, \<^verbatim>\<open>dequeue\<close> and \<^verbatim>\<open>is_empty\<close>\<close>

text \<open>
  The three steps of \<^verbatim>\<open>enqueue(v)\<close> on a quiescent queue, one after the other with
  no step of another thread in between, and the states between them.
\<close>

lemma enqueue_steps_quiescent:
  assumes q: "queue_at s q as xs"
  shows "\<exists>t n s1 s2 s'.
      get_tail q s = Some t \<and> deref (heap s) (Some t) = Inr n \<and>
      s1 = s\<lparr>heap := heap s @ [Live \<lparr>data = Some v, next = None\<rparr>]\<rparr> \<and>
      s2 = set_tail q (Some (length (heap s))) s1 \<and>
      s' = \<lparr>heap = (heap s @ [Live \<lparr>data = Some v, next = None\<rparr>])
                     [t := Live (n\<lparr>next := Some (length (heap s))\<rparr>)],
            objs = (objs s)(q := (objs s q)\<lparr>tail := Some (length (heap s))\<rparr>)\<rparr> \<and>
      enqueue_step q (Start v) s = Inr (Exchange (length (heap s)), s1) \<and>
      enqueue_step q (Exchange (length (heap s))) s1
        = Inr (Link (Some t) (length (heap s)), s2) \<and>
      enqueue_step q (Link (Some t) (length (heap s))) s2 = Inr (Finished, s') \<and>
      mpsc_enqueue q v s = Inr s' \<and> mpmc_enqueue q v s = Inr s' \<and>
      get_tail q s' = Some (length (heap s)) \<and>
      queue_at s' q (as @ [length (heap s)]) (xs @ [v])"
proof -
  from q have t: "get_tail q s = Some (last as)" and ne: "as \<noteq> []"
    and ch: "is_chain (heap s) (get_head q s) as"
    by (simp_all add: queue_at_def)
  from is_chain_last [OF ch ne] obtain n where
    n: "deref (heap s) (Some (last as)) = Inr n" by blast
  let ?a = "length (heap s)"
  let ?s1 = "s\<lparr>heap := heap s @ [Live \<lparr>data = Some v, next = None\<rparr>]\<rparr>"
  let ?s2 = "set_tail q (Some ?a) ?s1"
  let ?s' = "\<lparr>heap = (heap s @ [Live \<lparr>data = Some v, next = None\<rparr>])
                     [last as := Live (n\<lparr>next := Some ?a\<rparr>)],
            objs = (objs s)(q := (objs s q)\<lparr>tail := Some ?a\<rparr>)\<rparr>"
  have step1: "enqueue_step q (Start v) s = Inr (Exchange ?a, ?s1)"
    by (simp add: new_Node_def)
  have step2: "enqueue_step q (Exchange ?a) ?s1 = Inr (Link (Some (last as)) ?a, ?s2)"
    using t by simp
  have step3: "enqueue_step q (Link (Some (last as)) ?a) ?s2 = Inr (Finished, ?s')"
    using deref_append [OF n] by (simp add: store_next_def set_tail_def)
  have run: "mpsc_enqueue q v s = Inr ?s'"
    using t deref_append [OF n]
    by (simp add: mpsc_enqueue_def new_Node_def store_next_def set_tail_def)
  with mpsc_enqueue_queue_at [OF q, of v]
  have "queue_at ?s' q (as @ [?a]) (xs @ [v])" by auto
  moreover have "get_tail q ?s' = Some ?a"
    by (simp add: get_tail_def)
  ultimately show ?thesis
    using t n run step1 step2 step3 by (auto simp: mpmc_enqueue_eq)
qed

text \<open>
  C6, as stated, fails when calls of \<^verbatim>\<open>enqueue\<close> overlap. Two producers enqueue 1
  and 2 on a new queue. Producer 0 allocates node 1 and exchanges the tail; then
  producer 1 runs its whole call with node 2. The call \<^verbatim>\<open>enqueue(2)\<close> has returned
  and node 2 is the tail, but the chain from \<^verbatim>\<open>head\<close> is the sentinel alone:
  node 2 is not reachable, since producer 0 has not stored the sentinel's
  next-link. When producer 0 instead stores its link after producer 1's exchange,
  \<^verbatim>\<open>enqueue(1)\<close> has returned and its node 1 is not the tail. In terms of the
  sequential function: a whole call \<^verbatim>\<open>enqueue(10)\<close> on the queue in the middle of
  \<^verbatim>\<open>enqueue(9)\<close> succeeds, and its node 4 is the tail but not on the chain from
  \<^verbatim>\<open>head\<close>, which ends at node 2.
\<close>

theorem enqueue_overlap_counterexample:
  "mpsc_schedule 0 [Produce 0, Produce 0, Produce 1, Produce 1, Produce 1]
     (mpsc_start [1, 2] fresh_queue) = Inr stalled_system \<and>
   producers stalled_system ! 1 = Finished \<and>
   deref (heap (shared stalled_system)) (Some 2) = Inr \<lparr>data = Some 2, next = None\<rparr> \<and>
   get_tail 0 (shared stalled_system) = Some 2 \<and>
   is_chain (heap (shared stalled_system)) (get_head 0 (shared stalled_system)) [0] \<and>
   mpsc_schedule 0 [Produce 0, Produce 0, Produce 1, Produce 1, Produce 0]
     (mpsc_start [1, 2] fresh_queue) = Inr overtaken_system \<and>
   producers overtaken_system ! 0 = Finished \<and>
   deref (heap (shared overtaken_system)) (Some 1) = Inr \<lparr>data = Some 1, next = None\<rparr> \<and>
   get_tail 0 (shared overtaken_system) \<noteq> Some 1 \<and>
   mpsc_enqueue 0 10 sample_queue_pending = Inr sample_queue_pending_10 \<and>
   mpmc_enqueue 0 10 sample_queue_pending = Inr sample_queue_pending_10 \<and>
   get_tail 0 sample_queue_pending_10 = Some 4 \<and>
   is_chain (heap sample_queue_pending_10) (get_head 0 sample_queue_pending_10) [0, 1, 2]"
proof -
  have stalled: "producers stalled_system ! 1 = Finished"
    "deref (heap (shared stalled_system)) (Some 2) = Inr \<lparr>data = Some 2, next = None\<rparr>"
    "get_tail 0 (shared stalled_system) = Some 2"
    "is_chain (heap (shared stalled_system)) (get_head 0 (shared stalled_system)) [0]"
    by (simp_all add: stalled_system_def get_head_def get_tail_def deref_def)
  have overtaken: "producers overtaken_system ! 0 = Finished"
    "deref (heap (shared overtaken_system)) (Some 1) = Inr \<lparr>data = Some 1, next = None\<rparr>"
    "get_tail 0 (shared overtaken_system) \<noteq> Some 1"
    by (simp_all add: overtaken_system_def get_tail_def deref_def)
  have pending: "mpmc_enqueue 0 10 sample_queue_pending = Inr sample_queue_pending_10"
    "get_tail 0 sample_queue_pending_10 = Some 4"
    "is_chain (heap sample_queue_pending_10) (get_head 0 sample_queue_pending_10) [0, 1, 2]"
    by (simp_all add: mpmc_enqueue_eq sample_queue_pending_10_computed)
       (simp_all add: sample_queue_pending_10_def get_head_def get_tail_def deref_def)
  from stalled_system_computed overtaken_system_computed sample_queue_pending_10_computed
    stalled overtaken pending
  show ?thesis by (intro conjI)
qed

text \<open>
  C6, amended. On a quiescent queue \<^verbatim>\<open>enqueue(v)\<close> succeeds and is exactly these
  three steps: a new node with payload \<open>v\<close> and a null next-link is allocated (at
  the next unused address); \<^verbatim>\<open>tail\<close> is exchanged for its address, which yields the
  previous tail \<open>t\<close>; the next-link of node \<open>t\<close> is set to the new node. When no
  step of another call falls between them, the new node is afterwards the tail
  and the last node of the chain, behind all earlier elements; both classes end in
  the same state. When calls of \<^verbatim>\<open>enqueue\<close> overlap each other and the consumer's
  \<^verbatim>\<open>dequeue\<close>, under every schedule of their steps no step is undefined and each call
  has returned once it has had three turns, whatever the other threads did in
  between; when all the calls have returned and the consumer is between calls, the
  queue is quiescent again, and the elements it held at the start followed by the
  new values in the order of the tail exchanges, each once, are what the consumer
  has received followed by what the chain holds.
\<close>

theorem enqueue_links_new_tail:
  "(queue_at s q as xs \<longrightarrow>
     (\<exists>t n s1 s2 s'.
        get_tail q s = Some t \<and> deref (heap s) (Some t) = Inr n \<and>
        s1 = s\<lparr>heap := heap s @ [Live \<lparr>data = Some v, next = None\<rparr>]\<rparr> \<and>
        s2 = set_tail q (Some (length (heap s))) s1 \<and>
        s' = \<lparr>heap = (heap s @ [Live \<lparr>data = Some v, next = None\<rparr>])
                       [t := Live (n\<lparr>next := Some (length (heap s))\<rparr>)],
              objs = (objs s)(q := (objs s q)\<lparr>tail := Some (length (heap s))\<rparr>)\<rparr> \<and>
        enqueue_step q (Start v) s = Inr (Exchange (length (heap s)), s1) \<and>
        enqueue_step q (Exchange (length (heap s))) s1
          = Inr (Link (Some t) (length (heap s)), s2) \<and>
        enqueue_step q (Link (Some t) (length (heap s))) s2 = Inr (Finished, s') \<and>
        mpsc_enqueue q v s = Inr s' \<and> mpmc_enqueue q v s = Inr s' \<and>
        get_tail q s' = Some (length (heap s)) \<and>
        queue_at s' q (as @ [length (heap s)]) (xs @ [v]))) \<and>
   (queue_at s q as ys \<longrightarrow>
     (\<exists>sys'. mpsc_schedule q sched (mpsc_start vs s) = Inr sys' \<and>
        (\<forall>i<length vs. 3 \<le> count_list sched (Produce i) \<longrightarrow>
           producers sys' ! i = Finished) \<and>
        ((\<forall>p\<in>set (producers sys'). p = Finished) \<and> consumer sys' = Read_Next \<longrightarrow>
           (\<exists>L zs. queue_at (shared sys') q L zs \<and>
              ys @ map ((!) vs) (exchanged sys') = received (returned sys') @ zs \<and>
              distinct (exchanged sys') \<and> set (exchanged sys') = {..<length vs}))))"
proof (intro conjI impI)
  assume "queue_at s q as xs"
  then show "\<exists>t n s1 s2 s'.
        get_tail q s = Some t \<and> deref (heap s) (Some t) = Inr n \<and>
        s1 = s\<lparr>heap := heap s @ [Live \<lparr>data = Some v, next = None\<rparr>]\<rparr> \<and>
        s2 = set_tail q (Some (length (heap s))) s1 \<and>
        s' = \<lparr>heap = (heap s @ [Live \<lparr>data = Some v, next = None\<rparr>])
                       [t := Live (n\<lparr>next := Some (length (heap s))\<rparr>)],
              objs = (objs s)(q := (objs s q)\<lparr>tail := Some (length (heap s))\<rparr>)\<rparr> \<and>
        enqueue_step q (Start v) s = Inr (Exchange (length (heap s)), s1) \<and>
        enqueue_step q (Exchange (length (heap s))) s1
          = Inr (Link (Some t) (length (heap s)), s2) \<and>
        enqueue_step q (Link (Some t) (length (heap s))) s2 = Inr (Finished, s') \<and>
        mpsc_enqueue q v s = Inr s' \<and> mpmc_enqueue q v s = Inr s' \<and>
        get_tail q s' = Some (length (heap s)) \<and>
        queue_at s' q (as @ [length (heap s)]) (xs @ [v])"
    by (rule enqueue_steps_quiescent)
next
  assume "queue_at s q as ys"
  from mpsc_interleaved [OF this, of sched vs]
  obtain sys' L zs where run: "mpsc_schedule q sched (mpsc_start vs s) = Inr sys'"
    and acc: "ys @ map ((!) vs) (exchanged sys')
       = received (returned sys') @ in_flight (consumer sys') @ zs"
    and dist: "distinct (exchanged sys')"
    and quiet: "(\<forall>p\<in>set (producers sys'). p = Finished) \<and> consumer sys' = Read_Next \<longrightarrow>
        queue_at (shared sys') q L zs \<and> set (exchanged sys') = {..<length vs}"
    by blast
  have ret: "\<forall>i<length vs. 3 \<le> count_list sched (Produce i) \<longrightarrow>
           producers sys' ! i = Finished"
    using enqueue_returns_after_three_turns [OF run] by blast
  have "\<exists>L zs. queue_at (shared sys') q L zs \<and>
              ys @ map ((!) vs) (exchanged sys') = received (returned sys') @ zs \<and>
              distinct (exchanged sys') \<and> set (exchanged sys') = {..<length vs}"
    if fin: "(\<forall>p\<in>set (producers sys'). p = Finished) \<and> consumer sys' = Read_Next"
  proof -
    from fin acc have "ys @ map ((!) vs) (exchanged sys') = received (returned sys') @ zs"
      by simp
    with quiet fin dist show ?thesis by blast
  qed
  with run ret show "\<exists>sys'. mpsc_schedule q sched (mpsc_start vs s) = Inr sys' \<and>
        (\<forall>i<length vs. 3 \<le> count_list sched (Produce i) \<longrightarrow>
           producers sys' ! i = Finished) \<and>
        ((\<forall>p\<in>set (producers sys'). p = Finished) \<and> consumer sys' = Read_Next \<longrightarrow>
           (\<exists>L zs. queue_at (shared sys') q L zs \<and>
              ys @ map ((!) vs) (exchanged sys') = received (returned sys') @ zs \<and>
              distinct (exchanged sys') \<and> set (exchanged sys') = {..<length vs}))"
    by blast
qed

theorem enqueue_links_new_tail_witness:
  "queue_at sample_queue 0 [0, 1, 2] [7, 8] \<and>
   enqueue_step 0 (Start 9) sample_queue
     = Inr (Exchange 3, sample_queue\<lparr>heap := heap sample_queue @ [Live \<lparr>data = Some 9, next = None\<rparr>]\<rparr>) \<and>
   enqueue_step 0 (Exchange 3)
       (sample_queue\<lparr>heap := heap sample_queue @ [Live \<lparr>data = Some 9, next = None\<rparr>]\<rparr>)
     = Inr (Link (Some 2) 3, sample_queue_pending) \<and>
   enqueue_step 0 (Link (Some 2) 3) sample_queue_pending = Inr (Finished, sample_queue_9) \<and>
   mpsc_enqueue 0 9 sample_queue = Inr sample_queue_9 \<and>
   mpmc_enqueue 0 9 sample_queue = Inr sample_queue_9 \<and>
   get_tail 0 sample_queue_9 = Some 3 \<and>
   queue_at sample_queue_9 0 [0, 1, 2, 3] [7, 8, 9] \<and>
   queue_at fresh_queue 0 [0] [] \<and>
   3 \<le> count_list sample_schedule (Produce 1) \<and>
   mpsc_schedule 0 sample_schedule (mpsc_start [1, 2] fresh_queue) = Inr sample_schedule_result \<and>
   producers sample_schedule_result ! 1 = Finished \<and>
   (\<exists>L. queue_at (shared sample_schedule_result) 0 L [])"
proof -
  have len: "length (heap sample_queue) = 3"
    and tl: "get_tail 0 sample_queue = Some 2"
    by (simp_all add: sample_queue_def get_tail_def)
  have s2: "set_tail 0 (Some 3)
       (sample_queue\<lparr>heap := heap sample_queue @ [Live \<lparr>data = Some 9, next = None\<rparr>]\<rparr>)
     = sample_queue_pending"
    by (simp add: sample_queue_def sample_queue_pending_def set_tail_def)
  have s9: "\<lparr>heap = (heap sample_queue @ [Live \<lparr>data = Some 9, next = None\<rparr>])
                 [2 := Live (\<lparr>data = Some 8, next = None\<rparr>\<lparr>next := Some 3\<rparr>)],
             objs = (objs sample_queue) (0 := (objs sample_queue 0)\<lparr>tail := Some 3\<rparr>)\<rparr>
            = sample_queue_9"
    by (simp add: sample_queue_def sample_queue_9_def eval_nat_numeral)
  have n: "deref (heap sample_queue) (Some 2) = Inr \<lparr>data = Some 8, next = None\<rparr>"
    by (simp add: sample_queue_def deref_def)
  from enqueue_links_new_tail [where s = sample_queue and q = 0 and as = "[0, 1, 2]"
      and xs = "[7, 8]" and v = 9, THEN conjunct1, rule_format, OF sample_queue_at]
  obtain t n s1 s2 s' where t: "get_tail 0 sample_queue = Some t"
    and nt: "deref (heap sample_queue) (Some t) = Inr n"
    and s1: "s1 = sample_queue\<lparr>heap := heap sample_queue @ [Live \<lparr>data = Some 9, next = None\<rparr>]\<rparr>"
    and s2': "s2 = set_tail 0 (Some (length (heap sample_queue))) s1"
    and s': "s' = \<lparr>heap = (heap sample_queue @ [Live \<lparr>data = Some 9, next = None\<rparr>])
                       [t := Live (n\<lparr>next := Some (length (heap sample_queue))\<rparr>)],
              objs = (objs sample_queue)
                (0 := (objs sample_queue 0)\<lparr>tail := Some (length (heap sample_queue))\<rparr>)\<rparr>"
    and step1: "enqueue_step 0 (Start 9) sample_queue
       = Inr (Exchange (length (heap sample_queue)), s1)"
    and step2: "enqueue_step 0 (Exchange (length (heap sample_queue))) s1
       = Inr (Link (Some t) (length (heap sample_queue)), s2)"
    and step3: "enqueue_step 0 (Link (Some t) (length (heap sample_queue))) s2
       = Inr (Finished, s')"
    and run9: "mpsc_enqueue 0 9 sample_queue = Inr s'" "mpmc_enqueue 0 9 sample_queue = Inr s'"
      "get_tail 0 s' = Some (length (heap sample_queue))"
      "queue_at s' 0 ([0, 1, 2] @ [length (heap sample_queue)]) ([7, 8] @ [9])"
    by blast
  from t tl have t2: "t = 2" by simp
  from nt n have n8: "n = \<lparr>data = Some 8, next = None\<rparr>" unfolding t2 by simp
  have p: "s2 = sample_queue_pending" unfolding s2' s1 len by (rule s2)
  have e9: "s' = sample_queue_9" unfolding s' t2 n8 len by (rule s9)
  note seq = step1 [unfolded s1 len] step2 [unfolded p len t2, unfolded s1]
    step3 [unfolded p e9 len t2] run9 [unfolded e9 len append.simps]
  have three: "3 \<le> count_list sample_schedule (Produce 1)"
    by (simp add: sample_schedule_def)
  have fields: "\<forall>p\<in>set (producers sample_schedule_result). p = Finished"
    "consumer sample_schedule_result = Read_Next"
    "received (returned sample_schedule_result) = [2, 1]"
    "exchanged sample_schedule_result = [1, 0]"
    by (simp_all add: sample_schedule_result_def)
  from enqueue_links_new_tail [where s = fresh_queue and q = 0 and as = "[0]"
      and ys = "[]" and sched = sample_schedule and vs = "[1, 2]",
      THEN conjunct2, rule_format, OF fresh_queue_at]
  obtain sys' where run: "mpsc_schedule 0 sample_schedule (mpsc_start [1, 2] fresh_queue) = Inr sys'"
    and fin: "\<forall>i<length [1, 2 :: int]. 3 \<le> count_list sample_schedule (Produce i) \<longrightarrow>
           producers sys' ! i = Finished"
    and quiet: "(\<forall>p\<in>set (producers sys'). p = Finished) \<and> consumer sys' = Read_Next \<longrightarrow>
           (\<exists>L zs. queue_at (shared sys') 0 L zs \<and>
              [] @ map ((!) [1, 2]) (exchanged sys') = received (returned sys') @ zs \<and>
              distinct (exchanged sys') \<and> set (exchanged sys') = {..<length [1, 2 :: int]})"
    by blast
  from run have sys': "sys' = sample_schedule_result"
    by (simp add: sample_schedule_computed)
  from fin three have p1: "producers sample_schedule_result ! 1 = Finished"
    unfolding sys' by simp
  from quiet fields(1,2) obtain L zs where
    qa: "queue_at (shared sample_schedule_result) 0 L zs"
    and acc: "[] @ map ((!) [1, 2]) (exchanged sample_schedule_result)
       = received (returned sample_schedule_result) @ zs"
    unfolding sys' by blast
  from acc have "zs = []" unfolding fields by simp
  with qa have "\<exists>L. queue_at (shared sample_schedule_result) 0 L []" by blast
  with sample_queue_at seq fresh_queue_at three sample_schedule_computed p1
  show ?thesis by blast
qed

text \<open>
  \<^verbatim>\<open>dequeue\<close> called on its own. When the next-link of the node \<^verbatim>\<open>head\<close> points to
  is null, it returns \<^verbatim>\<open>nullptr\<close> and the state is unchanged. On every quiescent
  queue it returns without undefined behaviour, and returns either the oldest
  element or, when there is none, \<^verbatim>\<open>nullptr\<close>; in \<^verbatim>\<open>MPMC_Queue\<close> this result does
  not depend on the number \<open>k\<close> of spurious failures of the weak compare-and-swap.
\<close>

lemma dequeue_empty_or_element:
  "(deref (heap s) (get_head q s) = Inr n \<and> next n = None \<longrightarrow>
      mpsc_dequeue q s = Inr (None, s) \<and> mpmc_dequeue q k s = Inr (None, s)) \<and>
   (queue_at s q as xs \<longrightarrow>
      (\<exists>s'. mpsc_dequeue q s = Inr (case xs of [] \<Rightarrow> None | x # ys \<Rightarrow> Some x, s') \<and>
            mpmc_dequeue q k s = Inr (case xs of [] \<Rightarrow> None | x # ys \<Rightarrow> Some x, s') \<and>
            queue_at s' q (if xs = [] then as else tl as) (tl xs)))"
proof (intro conjI impI)
  assume "deref (heap s) (get_head q s) = Inr n \<and> next n = None"
  then show "mpsc_dequeue q s = Inr (None, s)"
    by (simp add: mpsc_dequeue_def)
  then show "mpmc_dequeue q k s = Inr (None, s)"
    by (simp add: mpmc_dequeue_eq)
next
  assume q: "queue_at s q as xs"
  show "\<exists>s'. mpsc_dequeue q s = Inr (case xs of [] \<Rightarrow> None | x # ys \<Rightarrow> Some x, s') \<and>
            mpmc_dequeue q k s = Inr (case xs of [] \<Rightarrow> None | x # ys \<Rightarrow> Some x, s') \<and>
            queue_at s' q (if xs = [] then as else tl as) (tl xs)"
  proof (cases xs)
    case Nil
    with q mpsc_dequeue_empty [of s q as] show ?thesis
      by (auto simp: mpmc_dequeue_eq)
  next
    case (Cons x ys)
    with q mpsc_dequeue_nonempty [of s q as x ys] show ?thesis
      by (auto simp: mpmc_dequeue_eq)
  qed
qed

lemma dequeue_empty_or_element_sample:
  "deref (heap fresh_queue) (get_head 0 fresh_queue) = Inr \<lparr>data = None, next = None\<rparr> \<and>
   mpsc_dequeue 0 fresh_queue = Inr (None, fresh_queue) \<and>
   mpmc_dequeue 0 2 fresh_queue = Inr (None, fresh_queue) \<and>
   queue_at sample_queue 0 [0, 1, 2] [7, 8] \<and>
   (\<exists>s'. mpsc_dequeue 0 sample_queue = Inr (Some 7, s') \<and>
         mpmc_dequeue 0 2 sample_queue = Inr (Some 7, s') \<and>
         queue_at s' 0 [1, 2] [8])"
proof -
  have a: "deref (heap fresh_queue) (get_head 0 fresh_queue) = Inr \<lparr>data = None, next = None\<rparr>"
    by (simp add: fresh_queue_def eval_defs)
  from a dequeue_empty_or_element [of fresh_queue 0 "\<lparr>data = None, next = None\<rparr>" 2 "[0]" "[]"]
  have b: "mpsc_dequeue 0 fresh_queue = Inr (None, fresh_queue) \<and>
   mpmc_dequeue 0 2 fresh_queue = Inr (None, fresh_queue)" by simp
  from sample_queue_at
    dequeue_empty_or_element [of sample_queue 0 "\<lparr>data = None, next = None\<rparr>" 2 "[0, 1, 2]" "[7, 8]"]
  have c: "\<exists>s'. mpsc_dequeue 0 sample_queue = Inr (Some 7, s') \<and>
         mpmc_dequeue 0 2 sample_queue = Inr (Some 7, s') \<and>
         queue_at s' 0 [1, 2] [8]" by simp
  from a b c sample_queue_at show ?thesis by blast
qed

lemma mpsc_is_empty_queue_at: "queue_at s q as xs \<Longrightarrow> mpsc_is_empty q s = Inr (xs = [])"
proof -
  assume q: "queue_at s q as xs"
  from queue_at_length [OF q] obtain a bs where as: "as = a # bs" "length bs = length xs"
    by (cases as) auto
  with q show ?thesis
    by (cases bs) (auto simp: queue_at_def mpsc_is_empty_def split: sum.splits)
qed

text \<open>
  C8, as stated, fails while a call of \<^verbatim>\<open>enqueue\<close> is between its tail exchange and
  its link store. Two producers enqueue 1 and 2 on a new queue: producer 0
  allocates node 1 and exchanges the tail, then producer 1 runs its whole call.
  Now \<^verbatim>\<open>enqueue(2)\<close> has returned, node 2 carries 2 and nothing has been dequeued,
  but the sentinel's next-link is still null and \<^verbatim>\<open>is_empty()\<close> of either class
  returns \<^verbatim>\<open>true\<close>.
\<close>

theorem is_empty_overlap_counterexample:
  "mpsc_schedule 0 [Produce 0, Produce 0, Produce 1, Produce 1, Produce 1]
     (mpsc_start [1, 2] fresh_queue) = Inr stalled_system \<and>
   producers stalled_system ! 1 = Finished \<and>
   returned stalled_system = [] \<and>
   deref (heap (shared stalled_system)) (Some 2) = Inr \<lparr>data = Some 2, next = None\<rparr> \<and>
   mpsc_is_empty 0 (shared stalled_system) = Inr True \<and>
   mpmc_is_empty 0 (shared stalled_system) = Inr True"
proof -
  have "producers stalled_system ! 1 = Finished"
    "returned stalled_system = []"
    "deref (heap (shared stalled_system)) (Some 2) = Inr \<lparr>data = Some 2, next = None\<rparr>"
    "mpsc_is_empty 0 (shared stalled_system) = Inr True"
    "mpmc_is_empty 0 (shared stalled_system) = Inr True"
    by (simp_all add: stalled_system_def mpsc_is_empty_def mpmc_is_empty_def get_head_def
        deref_def)
  with stalled_system_computed show ?thesis by (intro conjI)
qed

text \<open>
  C8, amended. \<^verbatim>\<open>is_empty()\<close> reads the next-link of the node \<^verbatim>\<open>head\<close> points to
  once and returns whether it is null. On a quiescent queue holding \<open>xs\<close> it
  returns \<^verbatim>\<open>true\<close> exactly when \<open>xs\<close> is empty; so after any sequence of calls made
  one after the other on a new queue it tells whether every enqueued element has
  been dequeued. While calls of \<^verbatim>\<open>enqueue\<close> overlap, under every schedule, a call of
  \<^verbatim>\<open>is_empty()\<close> by the consumer between two of its \<^verbatim>\<open>dequeue\<close> calls is defined,
  and when it returns \<^verbatim>\<open>false\<close> there is an element \<open>zs\<close> that has been enqueued (its
  tail exchange is done) and not dequeued; \<^verbatim>\<open>true\<close> does not tell that there is
  none.
\<close>

theorem is_empty_reports_null_next:
  "(deref (heap s) (get_head q s) = Inr n \<longrightarrow>
      mpsc_is_empty q s = Inr (next n = None) \<and> mpmc_is_empty q s = Inr (next n = None)) \<and>
   (queue_at s q as xs \<longrightarrow>
      mpsc_is_empty q s = Inr (xs = []) \<and> mpmc_is_empty q s = Inr (xs = [])) \<and>
   (\<exists>rs s'. mpsc_run q ops (mpsc_new q s0) = Inr (rs, s') \<and>
       mpsc_is_empty q s' = Inr (snd (fifo_run ops []) = [])) \<and>
   (\<exists>rs s'. mpmc_run q ops (mpmc_new q s0) = Inr (rs, s') \<and>
       mpmc_is_empty q s' = Inr (snd (fifo_run ops []) = [])) \<and>
   (queue_at s q as ys \<longrightarrow>
      (\<exists>sys' zs. mpsc_schedule q sched (mpsc_start vs s) = Inr sys' \<and>
         (consumer sys' = Read_Next \<longrightarrow>
            ys @ map ((!) vs) (exchanged sys') = received (returned sys') @ zs \<and>
            (\<exists>b. mpsc_is_empty q (shared sys') = Inr b \<and>
                 mpmc_is_empty q (shared sys') = Inr b \<and> (\<not> b \<longrightarrow> zs \<noteq> [])))))"
proof -
  have a: "deref (heap s) (get_head q s) = Inr n \<longrightarrow>
      mpsc_is_empty q s = Inr (next n = None) \<and> mpmc_is_empty q s = Inr (next n = None)"
    by (simp add: mpsc_is_empty_def mpmc_is_empty_def)
  have b: "queue_at s q as xs \<longrightarrow>
      mpsc_is_empty q s = Inr (xs = []) \<and> mpmc_is_empty q s = Inr (xs = [])"
    by (simp add: mpsc_is_empty_queue_at mpmc_is_empty_eq)
  have c: "\<exists>rs s'. mpsc_run q ops (mpsc_new q s0) = Inr (rs, s') \<and>
       mpsc_is_empty q s' = Inr (snd (fifo_run ops []) = [])"
    using mpsc_run_fifo [OF mpsc_new_queue_at [of q s0], where ops = ops]
    by (auto simp: mpsc_is_empty_queue_at)
  then have d: "\<exists>rs s'. mpmc_run q ops (mpmc_new q s0) = Inr (rs, s') \<and>
       mpmc_is_empty q s' = Inr (snd (fifo_run ops []) = [])"
    by (simp add: mpmc_run_eq mpmc_new_eq mpmc_is_empty_eq)
  have e: "queue_at s q as ys \<longrightarrow>
      (\<exists>sys' zs. mpsc_schedule q sched (mpsc_start vs s) = Inr sys' \<and>
         (consumer sys' = Read_Next \<longrightarrow>
            ys @ map ((!) vs) (exchanged sys') = received (returned sys') @ zs \<and>
            (\<exists>b. mpsc_is_empty q (shared sys') = Inr b \<and>
                 mpmc_is_empty q (shared sys') = Inr b \<and> (\<not> b \<longrightarrow> zs \<noteq> []))))"
    using mpsc_interleaved_is_empty [of s q as ys sched vs]
    by (simp add: mpmc_is_empty_eq)
  from a b c d e show ?thesis by blast
qed

theorem is_empty_reports_null_next_witness:
  "deref (heap sample_queue) (get_head 0 sample_queue) = Inr \<lparr>data = None, next = Some 1\<rparr> \<and>
   mpsc_is_empty 0 sample_queue = Inr False \<and> mpmc_is_empty 0 sample_queue = Inr False \<and>
   queue_at fresh_queue 0 [0] [] \<and>
   mpsc_is_empty 0 fresh_queue = Inr True \<and> mpmc_is_empty 0 fresh_queue = Inr True \<and>
   mpsc_schedule 0 [Produce 0, Produce 0, Produce 1, Produce 1, Produce 0]
     (mpsc_start [1, 2] fresh_queue) = Inr overtaken_system \<and>
   consumer overtaken_system = Read_Next \<and>
   mpsc_is_empty 0 (shared overtaken_system) = Inr False \<and>
   (\<exists>zs. zs \<noteq> [] \<and>
      map ((!) [1, 2]) (exchanged overtaken_system) = received (returned overtaken_system) @ zs)"
proof -
  note T = is_empty_reports_null_next [where q = 0 and ops = "[]" and ?s0.0 = empty_state
      and sched = "[Produce 0, Produce 0, Produce 1, Produce 1, Produce 0]" and vs = "[1, 2]"
      and ys = "[]"]
  have a: "deref (heap sample_queue) (get_head 0 sample_queue) = Inr \<lparr>data = None, next = Some 1\<rparr>"
    by (simp add: sample_queue_def eval_defs)
  from T [where s = sample_queue and as = "[0, 1, 2]" and xs = "[7, 8]",
      THEN conjunct1, rule_format, OF a]
  have b: "mpsc_is_empty 0 sample_queue = Inr False \<and> mpmc_is_empty 0 sample_queue = Inr False"
    by simp
  from T [where s = fresh_queue and as = "[0]" and xs = "[]",
      THEN conjunct2, THEN conjunct1, rule_format, OF fresh_queue_at]
  have c: "mpsc_is_empty 0 fresh_queue = Inr True \<and> mpmc_is_empty 0 fresh_queue = Inr True"
    by simp
  have idle: "consumer overtaken_system = Read_Next"
    and e: "mpsc_is_empty 0 (shared overtaken_system) = Inr False"
    by (simp_all add: overtaken_system_def mpsc_is_empty_def get_head_def deref_def)
  from T [where s = fresh_queue and as = "[0]" and xs = "[]",
      THEN conjunct2, THEN conjunct2, THEN conjunct2, THEN conjunct2, rule_format,
      OF fresh_queue_at]
  obtain sys' zs where run: "mpsc_schedule 0 [Produce 0, Produce 0, Produce 1, Produce 1, Produce 0]
     (mpsc_start [1, 2] fresh_queue) = Inr sys'"
    and rest: "consumer sys' = Read_Next \<longrightarrow>
            [] @ map ((!) [1, 2]) (exchanged sys') = received (returned sys') @ zs \<and>
            (\<exists>b. mpsc_is_empty 0 (shared sys') = Inr b \<and>
                 mpmc_is_empty 0 (shared sys') = Inr b \<and> (\<not> b \<longrightarrow> zs \<noteq> []))"
    by blast
  from run [unfolded overtaken_system_computed] have sys': "sys' = overtaken_system"
    by simp
  from rest idle e have "zs \<noteq> [] \<and>
      map ((!) [1, 2]) (exchanged overtaken_system) = received (returned overtaken_system) @ zs"
    unfolding sys' by auto
  then have d: "\<exists>zs. zs \<noteq> [] \<and>
      map ((!) [1, 2]) (exchanged overtaken_system) = received (returned overtaken_system) @ zs"
    by blast
  from a b c d e idle fresh_queue_at overtaken_system_computed show ?thesis by blast
qed

section \<open>Move assignment to itself\<close>

text \<open>
  C10. Move-assigning a queue to itself changes nothing, whatever its state: the
  guard \<^verbatim>\<open>this != &other\<close> skips the whole body, so no node is freed and
  \<^verbatim>\<open>head\<close>, \<^verbatim>\<open>tail\<close> and the chain are as before.
\<close>

theorem self_move_assign_is_noop:
  "mpsc_move_assign q q s = Inr s \<and> mpmc_move_assign q q s = Inr s"
  by (simp add: mpsc_move_assign_def mpmc_move_assign_def)

section \<open>Destruction\<close>

lemma is_chain_unique: "is_chain h p as \<Longrightarrow> is_chain h p bs \<Longrightarrow> as = bs"
proof (induction as arbitrary: p bs)
  case Nil
  then show ?case by (cases bs) auto
next
  case (Cons a as)
  then show ?case by (cases bs) (auto split: sum.splits)
qed

lemma is_chain_suffix: "is_chain h p (as @ a # bs) \<Longrightarrow> is_chain h (Some a) (a # bs)"
  by (induction as arbitrary: p) (auto split: sum.splits)

lemma is_chain_distinct: "is_chain h p as \<Longrightarrow> distinct as"
proof (induction as arbitrary: p)
  case Nil
  then show ?case by simp
next
  case (Cons a as)
  then obtain n where n: "deref h (Some a) = Inr n" "is_chain h (next n) as" and p: "p = Some a"
    by (auto split: sum.splits)
  have "a \<notin> set as"
  proof
    assume "a \<in> set as"
    then obtain bs cs where as: "as = bs @ a # cs" by (auto simp: in_set_conv_decomp)
    with n have short: "is_chain h (Some a) (a # cs)" by (auto dest: is_chain_suffix)
    have long: "is_chain h (Some a) (a # as)" using Cons.prems unfolding p .
    from is_chain_unique [OF long short] as show False by simp
  qed
  with Cons.IH [OF n(2)] show ?case by simp
qed

lemma free_all_Cons: "free_all (a # as) h = free_all as (h[a := Freed])"
  by (simp add: free_all_def)

lemma free_all_Nil: "free_all [] h = h"
  by (simp add: free_all_def)

lemma length_free_all: "length (free_all as h) = length h"
  by (induction as arbitrary: h) (simp_all add: free_all_Nil free_all_Cons)

lemma free_all_other: "a \<notin> set as \<Longrightarrow> free_all as h ! a = h ! a"
  by (induction as arbitrary: h) (auto simp: free_all_Nil free_all_Cons)

lemma free_all_freed: "a \<in> set as \<Longrightarrow> a < length h \<Longrightarrow> free_all as h ! a = Freed"
proof (induction as arbitrary: h)
  case Nil
  then show ?case by simp
next
  case (Cons b as)
  show ?case
  proof (cases "a \<in> set as")
    case True
    with Cons show ?thesis by (simp add: free_all_Cons)
  next
    case False
    with Cons.prems show ?thesis by (simp add: free_all_Cons free_all_other)
  qed
qed

lemma clean_nodes_loop_chain:
  "is_chain h p as \<Longrightarrow> clean_nodes_loop p h = Inr (free_all as h)"
proof (induction as arbitrary: p h)
  case Nil
  then show ?case by (simp add: clean_nodes_loop.simps free_all_Nil)
next
  case (Cons a as)
  then obtain n where n: "deref h (Some a) = Inr n" "is_chain h (next n) as" and p: "p = Some a"
    by (auto split: sum.splits)
  from is_chain_distinct [OF Cons.prems] have "a \<notin> set as" by simp
  with n have ch: "is_chain (h[a := Freed]) (next n) as"
    by (simp add: is_chain_update_other)
  from n have del: "delete_node (Some a) h = Inr (h[a := Freed])"
    by (simp add: delete_node_def deref_Some_Inr)
  show ?case
    using n(1) del p Cons.IH [OF ch]
    by (subst clean_nodes_loop.simps) (simp add: free_all_Cons)
qed

lemma live_count_free_all:
  "is_chain h p as \<Longrightarrow> live_count (free_all as h) + length as = live_count h"
proof (induction as arbitrary: p h)
  case Nil
  then show ?case by (simp add: free_all_Nil)
next
  case (Cons a as)
  then obtain n where n: "deref h (Some a) = Inr n" "is_chain h (next n) as" and p: "p = Some a"
    by (auto split: sum.splits)
  from is_chain_distinct [OF Cons.prems] have "a \<notin> set as" by simp
  with n have ch: "is_chain (h[a := Freed]) (next n) as"
    by (simp add: is_chain_update_other)
  have "live_count (h[a := Freed]) + 1 = live_count h"
    using n(1) unfolding live_count_def deref_Some_Inr
  proof (induction h arbitrary: a)
    case Nil
    then show ?case by simp
  next
    case (Cons c h)
    then show ?case by (cases a) auto
  qed
  with Cons.IH [OF ch] show ?case by (simp add: free_all_Cons)
qed

text \<open>
  C9. The destructor, run on a queue whose chain from \<^verbatim>\<open>head\<close> is \<open>as\<close>, returns
  without undefined behaviour (no double free, no access to a freed node) and
  leaves exactly the nodes \<open>as\<close> freed, the sentinel included: every one of them
  is freed, the number of live nodes drops by their number, and no other cell of
  the heap changes. The chain may be the sentinel alone, and it may be empty: with
  a null \<^verbatim>\<open>head\<close>, as in a moved-from queue, the destructor does nothing.
\<close>

theorem destroy_frees_chain_once:
  "(is_chain (heap s) (get_head q s) as \<longrightarrow>
     mpsc_destroy q s = Inr (s\<lparr>heap := free_all as (heap s)\<rparr>) \<and>
     mpmc_destroy q s = Inr (s\<lparr>heap := free_all as (heap s)\<rparr>) \<and>
     map (\<lambda>a. free_all as (heap s) ! a) as = replicate (length as) Freed \<and>
     live_count (free_all as (heap s)) + length as = live_count (heap s) \<and>
     length (free_all as (heap s)) = length (heap s) \<and>
     (a \<notin> set as \<longrightarrow> free_all as (heap s) ! a = heap s ! a)) \<and>
   (get_head q s = None \<longrightarrow> mpsc_destroy q s = Inr s \<and> mpmc_destroy q s = Inr s)"
proof (intro conjI impI)
  assume "get_head q s = None"
  then show "mpsc_destroy q s = Inr s"
    by (simp add: mpsc_destroy_def mpsc_clean_nodes_def clean_nodes_loop.simps)
  then show "mpmc_destroy q s = Inr s"
    by (simp add: mpmc_destroy_eq)
next
  assume ch: "is_chain (heap s) (get_head q s) as"
  show run: "mpsc_destroy q s = Inr (s\<lparr>heap := free_all as (heap s)\<rparr>)"
    by (simp add: mpsc_destroy_def mpsc_clean_nodes_def clean_nodes_loop_chain [OF ch])
  then show "mpmc_destroy q s = Inr (s\<lparr>heap := free_all as (heap s)\<rparr>)"
    by (simp add: mpmc_destroy_eq)
  show "map (\<lambda>a. free_all as (heap s) ! a) as = replicate (length as) Freed"
    using is_chain_bound [OF ch]
    by (intro replicate_eqI) (auto simp: free_all_freed)
  show "live_count (free_all as (heap s)) + length as = live_count (heap s)"
    by (rule live_count_free_all [OF ch])
  show "length (free_all as (heap s)) = length (heap s)"
    by (rule length_free_all)
next
  assume "a \<notin> set as"
  then show "free_all as (heap s) ! a = heap s ! a"
    by (rule free_all_other)
qed

theorem destroy_frees_chain_once_witness:
  "is_chain (heap sample_queue) (get_head 0 sample_queue) [0, 1, 2] \<and>
   mpsc_destroy 0 sample_queue = Inr (sample_queue\<lparr>heap := [Freed, Freed, Freed]\<rparr>) \<and>
   mpmc_destroy 0 sample_queue = Inr (sample_queue\<lparr>heap := [Freed, Freed, Freed]\<rparr>) \<and>
   live_count (heap sample_queue) = 3 \<and>
   live_count [Freed, Freed, Freed :: int cell] = 0 \<and>
   get_head 0 (empty_state :: int state) = None \<and>
   mpsc_destroy 0 (empty_state :: int state) = Inr empty_state \<and>
   mpmc_destroy 0 (empty_state :: int state) = Inr empty_state"
proof -
  have ch: "is_chain (heap sample_queue) (get_head 0 sample_queue) [0, 1, 2]"
    by (simp add: sample_queue_def get_head_def deref_def)
  have fr: "free_all [0, 1, 2] (heap sample_queue) = [Freed, Freed, Freed]"
    by (simp add: sample_queue_def free_all_def)
  have hd: "get_head 0 (empty_state :: int state) = None"
    by (simp add: empty_state_def get_head_def)
  have lc: "live_count (heap sample_queue) = 3" "live_count [Freed, Freed, Freed :: int cell] = 0"
    by (simp_all add: sample_queue_def live_count_def)
  from destroy_frees_chain_once [of sample_queue 0 "[0, 1, 2]" 0, unfolded fr] ch
  have a: "mpsc_destroy 0 sample_queue = Inr (sample_queue\<lparr>heap := [Freed, Freed, Freed]\<rparr>) \<and>
   mpmc_destroy 0 sample_queue = Inr (sample_queue\<lparr>heap := [Freed, Freed, Freed]\<rparr>)"
    by blast
  from destroy_frees_chain_once [of "empty_state :: int state" 0 "[]" 0] hd
  have b: "mpsc_destroy 0 (empty_state :: int state) = Inr empty_state \<and>
   mpmc_destroy 0 (empty_state :: int state) = Inr empty_state"
    by auto
  from ch a b hd lc show ?thesis by blast
qed

section \<open>\<^verbatim>\<open>size_approx\<close>\<close>

lemma size_approx_loop_chain:
  "is_chain h c cs \<Longrightarrow> cs \<noteq> [] \<Longrightarrow> count \<le> INT_MAX \<Longrightarrow>
   size_approx_loop h t c count =
     (if count + int (walk_len t cs) \<le> INT_MAX
      then Inr (count + int (walk_len t cs)) else Inl Signed_Overflow)"
proof (induction t cs arbitrary: c count rule: walk_len.induct)
  case (1 t)
  then show ?case by simp
next
  case (2 t a)
  then show ?case
    by (subst size_approx_loop.simps) (auto split: sum.splits)
next
  case (3 t a d cs)
  from "3.prems" obtain n where n: "c = Some a" "deref h (Some a) = Inr n" "next n = Some d"
    "is_chain h (Some d) (d # cs)"
    by (auto split: sum.splits)
  show ?case
  proof (cases "Some a = t")
    case True
    with n "3.prems" show ?thesis
      by (subst size_approx_loop.simps) simp
  next
    case False
    show ?thesis
    proof (cases "count < INT_MAX")
      case True
      with "3.IH" [OF False n(4), of "count + 1"] False n show ?thesis
        by (subst size_approx_loop.simps) (simp add: add.assoc)
    next
      case stop: False
      with False n "3.prems" show ?thesis
        by (subst size_approx_loop.simps) simp
    qed
  qed
qed

lemma walk_len_to_last:
  "distinct cs \<Longrightarrow> cs \<noteq> [] \<Longrightarrow> walk_len (Some (last cs)) cs = length cs - 1"
  by (induction "Some (last cs)" cs rule: walk_len.induct) auto

lemma walk_len_absent:
  "t \<notin> Some ` set cs \<Longrightarrow> walk_len t cs = length cs - 1"
  by (induction t cs rule: walk_len.induct) auto

lemma mpsc_size_approx_queue_at:
  assumes "queue_at s q as xs"
  shows "mpsc_size_approx q s =
     (if int (length xs) \<le> INT_MAX then Inr (int (length xs)) else Inl Signed_Overflow)"
proof -
  from assms have as: "as \<noteq> []" "distinct as" "is_chain (heap s) (get_head q s) as"
    "get_tail q s = Some (last as)"
    by (simp_all add: queue_at_def)
  have "walk_len (get_tail q s) as = length xs"
    using walk_len_to_last [OF as(2) as(1)] as(4) queue_at_length [OF assms] by simp
  with size_approx_loop_chain [OF as(3) as(1), of 0 "get_tail q s"] show ?thesis
    by (simp add: mpsc_size_approx_def INT_MAX_def)
qed

lemma long_queue_run:
  "mpsc_run 0 (replicate n (Enqueue 0)) (mpsc_new 0 empty_state) = Inr ([], long_queue n) \<and>
   (\<exists>as. queue_at (long_queue n) 0 as (replicate n 0))"
proof -
  have "fifo_run (map Enqueue (replicate n (0::int)) @ []) [] = ([], replicate n 0)"
    by (subst fifo_run_enqueues) simp
  with mpsc_run_fifo [OF mpsc_new_queue_at [of 0 "empty_state :: int state"],
        where ops = "map Enqueue (replicate n 0)"]
  show ?thesis by (auto simp: long_queue_def)
qed

lemma long_queue_overflow:
  assumes "INT_MAX < int n"
  shows "mpsc_size_approx 0 (long_queue n) = Inl Signed_Overflow"
proof -
  from long_queue_run [of n] obtain as where "queue_at (long_queue n) 0 as (replicate n 0)"
    by blast
  from mpsc_size_approx_queue_at [OF this] assms show ?thesis by simp
qed

lemma size_approx_computed:
  "mpsc_size_approx 0 sample_queue = Inr 2"
  "mpsc_size_approx 0 sample_queue_pending = Inr 2"
  "mpsc_size_approx 0 (empty_state :: int state) = Inr 0"
  by (simp_all add: mpsc_size_approx_def sample_queue_def sample_queue_pending_def empty_state_def
      size_approx_loop.simps get_head_def get_tail_def deref_def INT_MAX_def)

text \<open>
  C7, as stated, fails: after 2147483648 completed \<^verbatim>\<open>enqueue\<close> calls and no
  \<^verbatim>\<open>dequeue\<close> the queue is quiescent and holds 2147483648 elements, but
  \<^verbatim>\<open>size_approx\<close> does not return that number: its \<^verbatim>\<open>int\<close> counter reaches
  \<^verbatim>\<open>INT_MAX\<close> and the next increment overflows.
\<close>

theorem size_approx_overflow_counterexample:
  "mpsc_run 0 (replicate 2147483648 (Enqueue 0)) (mpsc_new 0 empty_state)
     = Inr ([], long_queue 2147483648) \<and>
   mpsc_size_approx 0 (long_queue 2147483648) = Inl Signed_Overflow \<and>
   mpmc_size_approx 0 (long_queue 2147483648) = Inl Signed_Overflow \<and>
   mpsc_size_approx 0 (long_queue 2147483648) \<noteq> Inr 2147483648"
proof -
  have big: "INT_MAX < int 2147483648" by (simp add: INT_MAX_def)
  have run: "mpsc_run 0 (replicate 2147483648 (Enqueue 0)) (mpsc_new 0 empty_state)
     = Inr ([], long_queue 2147483648)"
    using long_queue_run [of 2147483648] by (rule conjunct1)
  have ov: "mpsc_size_approx 0 (long_queue 2147483648) = Inl Signed_Overflow"
    using big by (rule long_queue_overflow)
  then have ov': "mpmc_size_approx 0 (long_queue 2147483648) = Inl Signed_Overflow"
    by (simp only: mpmc_size_approx_eq)
  have ne: "mpsc_size_approx 0 (long_queue 2147483648) \<noteq> Inr 2147483648"
    by (simp only: ov sum.distinct not_False_eq_True)
  from run ov ov' ne show ?thesis by (intro conjI)
qed

text \<open>
  C7, amended. On a quiescent queue holding \<open>n\<close> elements with \<open>n\<close> at most
  \<^verbatim>\<open>INT_MAX\<close>, \<^verbatim>\<open>size_approx()\<close> returns exactly \<open>n\<close>, which is then a
  non-negative \<^verbatim>\<open>int\<close>. When the walk from \<^verbatim>\<open>head\<close> meets a null next-link before
  it reaches the tail snapshot (the snapshot is not on the chain), it stops there
  and returns the number of links followed, without undefined behaviour and again
  non-negative, provided that number is at most \<^verbatim>\<open>INT_MAX\<close>.
\<close>

theorem size_approx_exact_within_int:
  "(queue_at s q as xs \<and> int (length xs) \<le> INT_MAX \<longrightarrow>
      (\<exists>r. mpsc_size_approx q s = Inr r \<and> mpmc_size_approx q s = Inr r \<and>
           r = int (length xs) \<and> 0 \<le> r \<and> r \<le> INT_MAX)) \<and>
   (is_chain (heap s) (get_head q s) as \<and> as \<noteq> [] \<and> get_tail q s \<notin> Some ` set as \<and>
    int (length as) - 1 \<le> INT_MAX \<longrightarrow>
      (\<exists>r. mpsc_size_approx q s = Inr r \<and> mpmc_size_approx q s = Inr r \<and>
           r = int (length as) - 1 \<and> 0 \<le> r \<and> r \<le> INT_MAX))"
proof (intro conjI impI)
  assume a: "queue_at s q as xs \<and> int (length xs) \<le> INT_MAX"
  then have "mpsc_size_approx q s = Inr (int (length xs))"
    using mpsc_size_approx_queue_at [of s q as xs] by simp
  with a show "\<exists>r. mpsc_size_approx q s = Inr r \<and> mpmc_size_approx q s = Inr r \<and>
           r = int (length xs) \<and> 0 \<le> r \<and> r \<le> INT_MAX"
    by (simp add: mpmc_size_approx_eq)
next
  assume a: "is_chain (heap s) (get_head q s) as \<and> as \<noteq> [] \<and> get_tail q s \<notin> Some ` set as \<and>
    int (length as) - 1 \<le> INT_MAX"
  then have "walk_len (get_tail q s) as = length as - 1"
    by (simp add: walk_len_absent)
  moreover from a have len: "int (length as - 1) = int (length as) - 1"
    by (cases as) auto
  ultimately have "mpsc_size_approx q s = Inr (int (length as) - 1)"
    using a size_approx_loop_chain [of "heap s" "get_head q s" as 0 "get_tail q s"]
    by (simp add: mpsc_size_approx_def INT_MAX_def)
  moreover from a have "0 \<le> int (length as) - 1" by (cases as) auto
  ultimately show "\<exists>r. mpsc_size_approx q s = Inr r \<and> mpmc_size_approx q s = Inr r \<and>
           r = int (length as) - 1 \<and> 0 \<le> r \<and> r \<le> INT_MAX"
    using a by (simp add: mpmc_size_approx_eq)
qed

theorem size_approx_exact_within_int_witness:
  "queue_at sample_queue 0 [0, 1, 2] [7, 8] \<and> int (length [7, 8 :: int]) \<le> INT_MAX \<and>
   mpsc_size_approx 0 sample_queue = Inr 2 \<and> mpmc_size_approx 0 sample_queue = Inr 2 \<and>
   is_chain (heap sample_queue_pending) (get_head 0 sample_queue_pending) [0, 1, 2] \<and>
   get_tail 0 sample_queue_pending = Some 3 \<and>
   mpsc_size_approx 0 sample_queue_pending = Inr 2 \<and>
   mpmc_size_approx 0 sample_queue_pending = Inr 2"
proof -
  have small: "int (length [7, 8 :: int]) \<le> INT_MAX" "int (length [0, 1, 2 :: nat]) - 1 \<le> INT_MAX"
    by (simp_all add: INT_MAX_def)
  have ch: "is_chain (heap sample_queue_pending) (get_head 0 sample_queue_pending) [0, 1, 2]"
    and tl: "get_tail 0 sample_queue_pending = Some 3"
    by (simp_all add: sample_queue_pending_def get_head_def get_tail_def deref_def)
  have absent: "get_tail 0 sample_queue_pending \<notin> Some ` set [0, 1, 2]"
    by (simp add: tl)
  have two: "int (length [7, 8 :: int]) = 2" "int (length [0, 1, 2 :: nat]) - 1 = 2"
    by simp_all
  from size_approx_exact_within_int [of sample_queue 0 "[0, 1, 2]" "[7, 8]",
      THEN conjunct1, rule_format, OF conjI, OF sample_queue_at small(1), unfolded two]
  have quiescent: "mpsc_size_approx 0 sample_queue = Inr 2 \<and>
      mpmc_size_approx 0 sample_queue = Inr 2"
    by blast
  have "is_chain (heap sample_queue_pending) (get_head 0 sample_queue_pending) [0, 1, 2] \<and>
      [0, 1, 2] \<noteq> [] \<and> get_tail 0 sample_queue_pending \<notin> Some ` set [0, 1, 2] \<and>
      int (length [0, 1, 2 :: nat]) - 1 \<le> INT_MAX"
    using ch absent small(2) by (intro conjI) simp_all
  from size_approx_exact_within_int [of sample_queue_pending 0 "[0, 1, 2]" "[]",
      THEN conjunct2, rule_format, OF this, unfolded two]
  have pending: "mpsc_size_approx 0 sample_queue_pending = Inr 2 \<and>
      mpmc_size_approx 0 sample_queue_pending = Inr 2"
    by blast
  from sample_queue_at small(1) quiescent ch tl pending show ?thesis by blast
qed

section \<open>Moving a queue\<close>

lemma is_chain_free_all_other:
  "set as \<inter> set bs = {} \<Longrightarrow> is_chain (free_all bs h) p as = is_chain h p as"
  by (induction bs arbitrary: h) (auto simp: free_all_Nil free_all_Cons is_chain_update_other)

lemma payloads_free_all_other:
  "set as \<inter> set bs = {} \<Longrightarrow> payloads (free_all bs h) as = payloads h as"
  by (induction bs arbitrary: h) (auto simp: free_all_Nil free_all_Cons payloads_update_other)

lemma mpsc_clean_nodes_chain:
  "is_chain (heap s) (get_head q s) bs \<Longrightarrow>
   mpsc_clean_nodes q s = Inr (s\<lparr>heap := free_all bs (heap s)\<rparr>)"
  by (simp add: mpsc_clean_nodes_def clean_nodes_loop_chain)

lemma Queue_update_commute:
  "(q :: Queue)\<lparr>tail := t, head := h\<rparr> = q\<lparr>head := h, tail := t\<rparr>"
  by (cases q) simp

lemma mpmc_move_assign_eq:
  "mpmc_move_assign this other s = mpsc_move_assign this other s"
  by (cases "mpsc_clean_nodes this s")
     (auto simp: mpmc_move_assign_def mpsc_move_assign_def mpmc_clean_nodes_eq Let_def
        set_head_def set_tail_def get_head_def get_tail_def fun_upd_twist Queue_update_commute)

lemma mpmc_move_construct_eq:
  "this \<noteq> other \<Longrightarrow> mpmc_move_construct this other s = mpsc_move_construct this other s"
  by (auto simp: mpmc_move_construct_def mpsc_move_construct_def Let_def
        set_head_def set_tail_def get_head_def get_tail_def fun_upd_twist Queue_update_commute)

lemma moved_from_unusable:
  assumes "moved_from s q"
  shows "mpsc_is_empty q s = Inl Null_Deref" "mpsc_dequeue q s = Inl Null_Deref"
    "mpsc_enqueue q v s = Inl Null_Deref"
    "mpsc_size_approx q s = Inr 0" "mpsc_destroy q s = Inr s"
  using assms
  by (simp_all add: moved_from_def mpsc_is_empty_def mpsc_dequeue_def mpsc_enqueue_def
      new_Node_def store_next_def mpsc_size_approx_def size_approx_loop.simps
      mpsc_destroy_def mpsc_clean_nodes_def clean_nodes_loop.simps)

lemma mpsc_run_dequeues:
  assumes "queue_at s q as xs"
  shows "\<exists>s'. mpsc_run q (replicate (length xs) (Dequeue k)) s = Inr (map Some xs, s')"
  using mpsc_run_fifo [OF assms, where ops = "replicate (length xs) (Dequeue k)"]
    fifo_run_dequeues [of xs k "[]"]
  by auto

lemma transfer_queue_at:
  assumes "A \<noteq> B" "queue_at s A as xs" "heap s' = heap s"
    "get_head B s' = get_head A s" "get_tail B s' = get_tail A s"
  shows "queue_at s' B as xs"
  using assms by (simp add: queue_at_def)

lemma mpsc_move_assign_transfers:
  assumes "A \<noteq> B" "queue_at s A as xs" "is_chain (heap s) (get_head B s) bs"
    "set as \<inter> set bs = {}"
  shows "\<exists>s'. mpsc_move_assign B A s = Inr s' \<and> queue_at s' B as xs \<and> moved_from s' A \<and>
     heap s' = free_all bs (heap s)"
proof -
  let ?s1 = "s\<lparr>heap := free_all bs (heap s)\<rparr>"
  let ?s' = "set_head A None (set_tail A None
      (set_head B (get_head A s) (set_tail B (get_tail A s) ?s1)))"
  have run: "mpsc_move_assign B A s = Inr ?s'"
    using assms(1) mpsc_clean_nodes_chain [OF assms(3)]
    by (simp add: mpsc_move_assign_def)
  have "queue_at ?s1 A as xs"
    using assms(2,4) by (simp add: queue_at_def is_chain_free_all_other payloads_free_all_other)
  then have "queue_at ?s' B as xs"
    using assms(1) by (simp add: queue_at_def)
  moreover have "moved_from ?s' A"
    by (simp add: moved_from_def)
  ultimately show ?thesis using run by auto
qed

lemma mpsc_move_construct_transfers:
  assumes "A \<noteq> B" "queue_at s A as xs"
  shows "queue_at (mpsc_move_construct B A s) B as xs \<and> moved_from (mpsc_move_construct B A s) A \<and>
     heap (mpsc_move_construct B A s) = heap s"
  using assms by (simp add: mpsc_move_construct_def queue_at_def moved_from_def)

lemma sample_move_computed:
  "mpsc_move_assign 1 0 (mpsc_new 1 sample_queue) = Inr sample_moved"
proof -
  have objs: "(\<lambda>q. \<lparr>head = None, tail = None\<rparr>)
      (0 := \<lparr>head = None, tail = None\<rparr>, Suc 0 := \<lparr>head = Some 0, tail = Some (Suc (Suc 0))\<rparr>)
    = (\<lambda>q. \<lparr>head = None, tail = None\<rparr>)(Suc 0 := \<lparr>head = Some 0, tail = Some (Suc (Suc 0))\<rparr>)"
    by (auto simp: fun_eq_iff)
  show ?thesis
    by (simp add: mpsc_move_assign_def mpsc_clean_nodes_def clean_nodes_loop.simps
        sample_queue_def sample_moved_def eval_defs eval_nat_numeral fun_upd_twist objs)
qed

text \<open>
  C3, as stated, fails in its second half: after queue 0 has been move-assigned to
  queue 1, queue 0 does not behave as a newly constructed queue. On a new queue
  \<^verbatim>\<open>is_empty\<close> returns \<^verbatim>\<open>true\<close> and \<^verbatim>\<open>dequeue\<close> returns \<^verbatim>\<open>nullptr\<close>; on the
  moved-from queue \<^verbatim>\<open>is_empty\<close>, \<^verbatim>\<open>dequeue\<close> and \<^verbatim>\<open>enqueue\<close> dereference a null
  pointer.
\<close>

theorem move_source_not_fresh_counterexample:
  "mpsc_move_assign 1 0 (mpsc_new 1 sample_queue) = Inr sample_moved \<and>
   mpmc_move_assign 1 0 (mpmc_new 1 sample_queue) = Inr sample_moved \<and>
   mpsc_is_empty 0 sample_moved = Inl Null_Deref \<and>
   mpsc_dequeue 0 sample_moved = Inl Null_Deref \<and>
   mpsc_enqueue 0 9 sample_moved = Inl Null_Deref \<and>
   mpmc_is_empty 0 sample_moved = Inl Null_Deref \<and>
   mpmc_dequeue 0 0 sample_moved = Inl Null_Deref \<and>
   mpmc_enqueue 0 9 sample_moved = Inl Null_Deref \<and>
   mpsc_is_empty 0 (mpsc_new 0 sample_moved) = Inr True \<and>
   mpsc_dequeue 0 (mpsc_new 0 sample_moved) = Inr (None, mpsc_new 0 sample_moved)"
proof -
  have b: "mpsc_is_empty 0 sample_moved = Inl Null_Deref"
    "mpsc_dequeue 0 sample_moved = Inl Null_Deref"
    "mpsc_enqueue 0 9 sample_moved = Inl Null_Deref"
    by (simp_all add: sample_moved_def mpsc_is_empty_def eval_defs)
  have c: "mpsc_is_empty 0 (mpsc_new 0 sample_moved) = Inr True"
    "mpsc_dequeue 0 (mpsc_new 0 sample_moved) = Inr (None, mpsc_new 0 sample_moved)"
    by (simp_all add: sample_moved_def mpsc_is_empty_def eval_defs)
  from sample_move_computed b c show ?thesis
    by (simp add: mpmc_move_assign_eq mpmc_new_eq mpmc_is_empty_eq mpmc_dequeue_eq mpmc_enqueue_eq)
qed

text \<open>
  C3, amended. After move-assigning a quiescent queue \<open>A\<close> to a different queue
  \<open>B\<close> (whose own chain \<open>bs\<close>, possibly empty, is freed first), or
  move-constructing \<open>B\<close> from \<open>A\<close>, the queue \<open>B\<close> holds the elements of \<open>A\<close>
  and successive \<^verbatim>\<open>dequeue\<close> calls on \<open>B\<close> return them in their original order.
  \<open>A\<close> is left with null \<^verbatim>\<open>head\<close> and \<^verbatim>\<open>tail\<close>; it is not a new queue: on it
  \<^verbatim>\<open>is_empty\<close>, \<^verbatim>\<open>dequeue\<close> and \<^verbatim>\<open>enqueue\<close> are undefined (they dereference
  null), while \<^verbatim>\<open>size_approx\<close> returns 0 and the destructor does nothing.
\<close>

theorem move_transfers_chain:
  "(A \<noteq> B \<and> queue_at s A as xs \<and> is_chain (heap s) (get_head B s) bs \<and>
    set as \<inter> set bs = {} \<longrightarrow>
      (\<exists>s'. mpsc_move_assign B A s = Inr s' \<and> mpmc_move_assign B A s = Inr s' \<and>
            queue_at s' B as xs \<and> moved_from s' A \<and> heap s' = free_all bs (heap s) \<and>
            (\<exists>s''. mpsc_run B (replicate (length xs) (Dequeue k)) s' = Inr (map Some xs, s'')) \<and>
            (\<exists>s''. mpmc_run B (replicate (length xs) (Dequeue k)) s' = Inr (map Some xs, s'')))) \<and>
   (A \<noteq> B \<and> queue_at s A as xs \<longrightarrow>
      mpmc_move_construct B A s = mpsc_move_construct B A s \<and>
      queue_at (mpsc_move_construct B A s) B as xs \<and>
      moved_from (mpsc_move_construct B A s) A \<and>
      heap (mpsc_move_construct B A s) = heap s \<and>
      (\<exists>s''. mpsc_run B (replicate (length xs) (Dequeue k)) (mpsc_move_construct B A s)
               = Inr (map Some xs, s'')) \<and>
      (\<exists>s''. mpmc_run B (replicate (length xs) (Dequeue k)) (mpsc_move_construct B A s)
               = Inr (map Some xs, s''))) \<and>
   (moved_from s A \<longrightarrow>
      mpsc_is_empty A s = Inl Null_Deref \<and> mpsc_dequeue A s = Inl Null_Deref \<and>
      mpsc_enqueue A v s = Inl Null_Deref \<and>
      mpmc_is_empty A s = Inl Null_Deref \<and> mpmc_dequeue A k s = Inl Null_Deref \<and>
      mpmc_enqueue A v s = Inl Null_Deref \<and>
      mpsc_size_approx A s = Inr 0 \<and> mpmc_size_approx A s = Inr 0 \<and>
      mpsc_destroy A s = Inr s \<and> mpmc_destroy A s = Inr s)"
proof (intro conjI impI)
  assume a: "A \<noteq> B \<and> queue_at s A as xs \<and> is_chain (heap s) (get_head B s) bs \<and>
    set as \<inter> set bs = {}"
  then obtain s' where s': "mpsc_move_assign B A s = Inr s'" "queue_at s' B as xs"
    "moved_from s' A" "heap s' = free_all bs (heap s)"
    using mpsc_move_assign_transfers [of A B s as xs bs] by blast
  from mpsc_run_dequeues [OF s'(2), of k] obtain s'' where
    "mpsc_run B (replicate (length xs) (Dequeue k)) s' = Inr (map Some xs, s'')" by blast
  with s' show "\<exists>s'. mpsc_move_assign B A s = Inr s' \<and> mpmc_move_assign B A s = Inr s' \<and>
            queue_at s' B as xs \<and> moved_from s' A \<and> heap s' = free_all bs (heap s) \<and>
            (\<exists>s''. mpsc_run B (replicate (length xs) (Dequeue k)) s' = Inr (map Some xs, s'')) \<and>
            (\<exists>s''. mpmc_run B (replicate (length xs) (Dequeue k)) s' = Inr (map Some xs, s''))"
    by (auto simp: mpmc_move_assign_eq mpmc_run_eq)
next
  assume a: "A \<noteq> B \<and> queue_at s A as xs"
  then show "mpmc_move_construct B A s = mpsc_move_construct B A s"
    by (simp add: mpmc_move_construct_eq)
  from a mpsc_move_construct_transfers [of A B s as xs]
  show t: "queue_at (mpsc_move_construct B A s) B as xs"
    and "moved_from (mpsc_move_construct B A s) A"
    and "heap (mpsc_move_construct B A s) = heap s"
    by simp_all
  from mpsc_run_dequeues [OF t, of k]
  show "\<exists>s''. mpsc_run B (replicate (length xs) (Dequeue k)) (mpsc_move_construct B A s)
               = Inr (map Some xs, s'')" .
  then show "\<exists>s''. mpmc_run B (replicate (length xs) (Dequeue k)) (mpsc_move_construct B A s)
               = Inr (map Some xs, s'')"
    by (simp add: mpmc_run_eq)
next
  assume m: "moved_from s A"
  from moved_from_unusable [OF m]
  show "mpsc_is_empty A s = Inl Null_Deref" "mpsc_dequeue A s = Inl Null_Deref"
    "mpsc_enqueue A v s = Inl Null_Deref"
    "mpmc_is_empty A s = Inl Null_Deref" "mpmc_dequeue A k s = Inl Null_Deref"
    "mpmc_enqueue A v s = Inl Null_Deref"
    "mpsc_size_approx A s = Inr 0" "mpmc_size_approx A s = Inr 0"
    "mpsc_destroy A s = Inr s" "mpmc_destroy A s = Inr s"
    by (simp_all add: mpmc_is_empty_eq mpmc_dequeue_eq mpmc_enqueue_eq mpmc_size_approx_eq
        mpmc_destroy_eq)
qed

theorem move_transfers_chain_witness:
  "(0::nat) \<noteq> 1 \<and> queue_at (mpsc_new 1 sample_queue) 0 [0, 1, 2] [7, 8] \<and>
   is_chain (heap (mpsc_new 1 sample_queue)) (get_head 1 (mpsc_new 1 sample_queue)) [3] \<and>
   set [0, 1, 2 :: nat] \<inter> set [3] = {} \<and>
   mpsc_move_assign 1 0 (mpsc_new 1 sample_queue) = Inr sample_moved \<and>
   mpmc_move_assign 1 0 (mpsc_new 1 sample_queue) = Inr sample_moved \<and>
   queue_at sample_moved 1 [0, 1, 2] [7, 8] \<and> moved_from sample_moved 0 \<and>
   (\<exists>s''. mpsc_run 1 (replicate 2 (Dequeue 0)) sample_moved = Inr ([Some 7, Some 8], s'')) \<and>
   queue_at sample_queue 0 [0, 1, 2] [7, 8] \<and>
   queue_at (mpsc_move_construct 1 0 sample_queue) 1 [0, 1, 2] [7, 8] \<and>
   moved_from (mpsc_move_construct 1 0 sample_queue) 0 \<and>
   mpsc_is_empty 0 sample_moved = Inl Null_Deref \<and>
   mpsc_dequeue 0 sample_moved = Inl Null_Deref \<and>
   mpsc_enqueue 0 9 sample_moved = Inl Null_Deref \<and>
   mpsc_size_approx 0 sample_moved = Inr 0 \<and>
   mpsc_destroy 0 sample_moved = Inr sample_moved"
proof -
  let ?s = "mpsc_new 1 sample_queue"
  have ne: "(0::nat) \<noteq> 1" by simp
  have qa: "queue_at ?s 0 [0, 1, 2] [7, 8]"
    by (simp add: sample_queue_def queue_at_def payloads_def eval_defs)
  have chb: "is_chain (heap ?s) (get_head 1 ?s) [3]"
    by (simp add: sample_queue_def eval_defs)
  have disj: "set [0, 1, 2 :: nat] \<inter> set [3] = {}" by simp
  have len: "length [7, 8 :: int] = 2" "map Some [7, 8 :: int] = [Some 7, Some 8]" by simp_all
  note T = move_transfers_chain [of 0 1 ?s "[0, 1, 2]" "[7, 8]" "[3]" 0 9]
  from T [THEN conjunct1, rule_format, OF conjI, OF ne conjI, OF qa conjI, OF chb disj]
  have assign: "mpmc_move_assign 1 0 ?s = Inr sample_moved \<and>
     queue_at sample_moved 1 [0, 1, 2] [7, 8] \<and> moved_from sample_moved 0 \<and>
     (\<exists>s''. mpsc_run 1 (replicate 2 (Dequeue 0)) sample_moved = Inr ([Some 7, Some 8], s''))"
    unfolding len sample_move_computed by auto
  note C = move_transfers_chain [of 0 1 sample_queue "[0, 1, 2]" "[7, 8]" "[]" 0 9]
  from C [THEN conjunct2, THEN conjunct1, rule_format, OF conjI, OF ne sample_queue_at]
  have construct: "queue_at (mpsc_move_construct 1 0 sample_queue) 1 [0, 1, 2] [7, 8] \<and>
     moved_from (mpsc_move_construct 1 0 sample_queue) 0"
    by blast
  note U = move_transfers_chain [of 0 1 sample_moved "[]" "[]" "[]" 0 9]
  from assign have "moved_from sample_moved 0" by blast
  from U [THEN conjunct2, THEN conjunct2, rule_format, OF this]
  have unusable: "mpsc_is_empty 0 sample_moved = Inl Null_Deref \<and>
     mpsc_dequeue 0 sample_moved = Inl Null_Deref \<and>
     mpsc_enqueue 0 9 sample_moved = Inl Null_Deref \<and>
     mpsc_size_approx 0 sample_moved = Inr 0 \<and>
     mpsc_destroy 0 sample_moved = Inr sample_moved"
    by blast
  from ne qa chb disj sample_move_computed assign sample_queue_at construct unusable
  show ?thesis by blast
qed

section \<open>Overlapping \<^verbatim>\<open>dequeue\<close> calls on an \<^verbatim>\<open>MPMC_Queue\<close>\<close>

text \<open>
  One consumer running alone through its five steps does what the sequential
  \<open>mpmc_dequeue\<close> does.
\<close>

lemma dequeue_steps_alone:
  "run_consumers q [0, 0, 0, 0, 0] [Load_Head] s =
     (case mpmc_dequeue q 0 s of
        Inl e \<Rightarrow> Inl e
      | Inr (r, s') \<Rightarrow> Inr ([Returned r], s'))"
  by (subst mpmc_dequeue.simps)
     (auto simp: cas_head_def Let_def split: sum.splits option.splits prod.splits)

text \<open>Two calls, one after the other, on the queue holding 7 and 8.\<close>

lemma mpmc_dequeue_one_after_the_other:
  "run_consumers 0 [0, 0, 0, 0, 0, 1, 1, 1, 1, 1] [Load_Head, Load_Head] sample_queue
     = Inr ([Returned (Some 7), Returned (Some 8)],
            \<lparr>heap = [Freed, Freed, Live \<lparr>data = None, next = None\<rparr>],
             objs = (\<lambda>q. \<lparr>head = None, tail = None\<rparr>)(0 := \<lparr>head = Some 2, tail = Some 2\<rparr>)\<rparr>)"
  by (simp add: sample_queue_def cas_head_def eval_defs)

text \<open>
  C2. The code has no reclamation layer, and the property fails. On the queue
  holding 7 and 8, consumer 1 loads \<^verbatim>\<open>head\<close>; consumer 0 then runs its whole call,
  wins the compare-and-swap and deletes the old head node; consumer 1 goes on to
  read the next-link of the node it loaded, which has been freed.
\<close>

theorem mpmc_dequeue_use_after_free:
  "run_consumers 0 [1, 0, 0, 0, 0, 0, 1] [Load_Head, Load_Head] sample_queue
     = Inl Use_After_Free"
  by (simp add: sample_queue_def cas_head_def eval_defs)

text \<open>
  C5. For \<^verbatim>\<open>MPMC_Queue\<close> the property fails when calls of \<^verbatim>\<open>dequeue\<close> overlap: a call
  can end in undefined behaviour, which is neither an element nor \<^verbatim>\<open>nullptr\<close>.
  On the queue holding 7 and 8 with three consumers: consumer 1 loads \<^verbatim>\<open>head\<close> and
  its next-link; consumer 0 runs its whole call and returns 7; the
  compare-and-swap of consumer 1 fails, and it starts over and loads the new
  \<^verbatim>\<open>head\<close>, node 1; consumer 2 runs its whole call, returns 8 and deletes node 1;
  consumer 1, in its second round, reads the next-link of node 1, which has been
  freed. A call that wins its compare-and-swap is not safe either: consumer 0 of
  two wins and is about to take the payload of node 1; consumer 1 runs its whole
  call, returns 8 and deletes node 1; consumer 0 then moves the payload out of the
  freed node.
\<close>

theorem mpmc_dequeue_retry_undefined:
  "run_consumers 0 [1, 1, 0, 0, 0, 0, 0, 1] [Load_Head, Load_Head, Load_Head] sample_queue
     = Inr ([Returned (Some 7), Load_Head, Load_Head], sample_queue_after_7) \<and>
   run_consumers 0 [1, 1, 0, 0, 0, 0, 0, 1, 1, 2, 2, 2, 2, 2, 1]
       [Load_Head, Load_Head, Load_Head] sample_queue
     = Inl Use_After_Free \<and>
   run_consumers 0 [0, 0, 0, 1, 1, 1, 1, 1, 0] [Load_Head, Load_Head] sample_queue
     = Inl Use_After_Free"
  by (simp add: sample_queue_def sample_queue_after_7_def cas_head_def eval_defs)

end
